theory Spec2Isabelle
  imports Main
begin

section \<open>The plugin of reverser\_ai/binary\_ninja\<close>

text \<open>
  The module \<^verbatim>\<open>reverser_ai/binary_ninja/__init__.py\<close> holds a manager for one shared
  \<^verbatim>\<open>FunctionNameGPTWrapper\<close>, a command that renames one function and a command that
  renames every function of a binary view, callees before callers, with a worklist.

  Two modules it imports are not among the sources: \<^verbatim>\<open>utils\<close>, with the classifier
  \<^verbatim>\<open>is_derived_func_name\<close>, and \<^verbatim>\<open>function_name_gpt_wrapper\<close>, with the class
  \<^verbatim>\<open>FunctionNameGPTWrapper\<close> and its method \<^verbatim>\<open>apply_suggestion\<close>. Both are parameters of
  the model. The classifier is any predicate on names; the whole-program command leaves a
  function alone when the classifier holds of its name, so that outcome is the one that
  stands for a meaningful name. \<^verbatim>\<open>apply_suggestion\<close> is any function that, given the
  wrapper, a function and the current names, either raises or returns the names it leaves
  behind: it asks the model for a name and commits it, in one call.
\<close>

subsection \<open>The singleton manager\<close>

text \<open>
  A wrapper object is identified by the number of wrappers that were built before it: two
  results of \<^verbatim>\<open>get_instance\<close> are the same object iff they are the same number.
\<close>

type_synonym wrapper = nat

text \<open>
  The class \<^verbatim>\<open>BinjaFunctionNameGPTManager\<close>. The field \<open>constructions\<close> is not in the
  source: it counts the calls of the constructor \<^verbatim>\<open>FunctionNameGPTWrapper()\<close>.
\<close>

record manager =
  binja_function_name_gpt :: "wrapper option"
  constructions :: nat

text \<open>\<^verbatim>\<open>__init__\<close>, at a moment when \<open>k\<close> wrappers have been built.\<close>

definition manager_init :: "nat \<Rightarrow> manager" where
  "manager_init k = \<lparr>binja_function_name_gpt = None, constructions = k\<rparr>"

text \<open>
  Modelled from the spec: the constructor \<^verbatim>\<open>FunctionNameGPTWrapper()\<close> of the module
  \<^verbatim>\<open>function_name_gpt_wrapper\<close>, which is not among the sources. Every call builds a new
  object and is counted.
\<close>

definition FunctionNameGPTWrapper :: "manager \<Rightarrow> wrapper \<times> manager" where
  "FunctionNameGPTWrapper self = (constructions self, self\<lparr>constructions := Suc (constructions self)\<rparr>)"

definition get_instance :: "manager \<Rightarrow> wrapper \<times> manager" where
  "get_instance self =
     (case binja_function_name_gpt self of
        None \<Rightarrow>
          (let (w, self1) = FunctionNameGPTWrapper self;
               self2 = self1\<lparr>binja_function_name_gpt := Some w\<rparr>
           in (w, self2))
      | Some w \<Rightarrow> (w, self))"

text \<open>\<open>n\<close> calls of \<^verbatim>\<open>get_instance\<close> one after the other: the objects returned, in order.\<close>

fun get_instance_seq :: "nat \<Rightarrow> manager \<Rightarrow> wrapper list \<times> manager" where
  "get_instance_seq 0 self = ([], self)"
| "get_instance_seq (Suc n) self =
     (let (w, self1) = get_instance self;
          (ws, self2) = get_instance_seq n self1
      in (w # ws, self2))"

text \<open>
  One call of \<^verbatim>\<open>get_instance\<close>, cut at the points between which another thread can run:
  the test of line 34, the call of the constructor on the right of line 35, the assignment
  of line 35, and the \<^verbatim>\<open>return\<close> of line 36, which reads the field again. A task is where
  one call stands; \<open>Store w\<close> holds the wrapper just built, \<open>Finished r\<close> the value returned.
\<close>

datatype task = Check | Build | Store wrapper | Return | Finished "wrapper option"

fun task_step :: "task \<Rightarrow> manager \<Rightarrow> task \<times> manager" where
  "task_step Check self = (if binja_function_name_gpt self = None then Build else Return, self)"
| "task_step Build self = (let (w, self1) = FunctionNameGPTWrapper self in (Store w, self1))"
| "task_step (Store w) self = (Return, self\<lparr>binja_function_name_gpt := Some w\<rparr>)"
| "task_step Return self = (Finished (binja_function_name_gpt self), self)"
| "task_step (Finished r) self = (Finished r, self)"

text \<open>
  Two calls on the one global manager, run by two background tasks. The source has no lock,
  so the schedule alone says whose step comes next: \<open>False\<close> for the first task, \<open>True\<close>
  for the second.
\<close>

fun interleave :: "bool list \<Rightarrow> task \<times> task \<times> manager \<Rightarrow> task \<times> task \<times> manager" where
  "interleave [] c = c"
| "interleave (b # bs) (t1, t2, self) =
     (if b then (let (t2', self') = task_step t2 self in interleave bs (t1, t2', self'))
      else (let (t1', self') = task_step t1 self in interleave bs (t1', t2, self')))"

subsection \<open>The host and the missing collaborators\<close>

text \<open>An exception that leaves \<^verbatim>\<open>apply_suggestion\<close>.\<close>

datatype error = SuggestionError

text \<open>
  The binary view: its list of functions and, for every function, the list of its callees.
  Renaming a function does not change the call graph, so the graph is not part of the state
  that the commands change.
\<close>

record 'f binary_view =
  bv_functions :: "'f list"
  callees :: "'f \<Rightarrow> 'f list"

type_synonym 'f names = "'f \<Rightarrow> string"

type_synonym 'f applier = "wrapper \<Rightarrow> 'f \<Rightarrow> 'f names \<Rightarrow> error + 'f names"

subsection \<open>Renaming one function\<close>

definition plugin_wrapper_rename_function ::
  "'f applier \<Rightarrow> 'f \<Rightarrow> manager \<times> 'f names \<Rightarrow> manager \<times> (error + 'f names)" where
  "plugin_wrapper_rename_function apply_suggestion f w =
     (let (gpt, m) = get_instance (fst w)
      in (m, apply_suggestion gpt f (snd w)))"

subsection \<open>Renaming all functions\<close>

text \<open>
  What one run does is recorded in a log, which is not in the source: \<open>Applied f\<close> for a
  call \<^verbatim>\<open>gpt.apply_suggestion(f)\<close>, \<open>MarkedDone f\<close> for \<^verbatim>\<open>done.add(f)\<close>.
\<close>

datatype 'f event = Applied 'f | MarkedDone 'f

record 'f state =
  todo :: "'f list"
  done_set :: "'f set"
  names :: "'f names"
  log :: "'f event list"

type_synonym 'f result = "(error \<times> 'f state) + 'f state"

text \<open>\<^verbatim>\<open>done.add(current)\<close>\<close>

definition mark_done :: "'f \<Rightarrow> 'f state \<Rightarrow> 'f state" where
  "mark_done current s =
     s\<lparr>done_set := insert current (done_set s), log := log s @ [MarkedDone current]\<rparr>"

text \<open>Lines 110 to 115: \<^verbatim>\<open>current\<close> goes back on the worklist, then its callees that are not done.\<close>

definition requeue :: "'f binary_view \<Rightarrow> 'f \<Rightarrow> 'f state \<Rightarrow> 'f state" where
  "requeue bv current s =
     s\<lparr>todo := (todo s @ [current]) @ filter (\<lambda>callee. callee \<notin> done_set s) (callees bv current)\<rparr>"

text \<open>
  The body of the \<^verbatim>\<open>while\<close> loop, on a state whose worklist is not empty. \<^verbatim>\<open>todo.pop()\<close>
  takes the last element. An exception of \<^verbatim>\<open>apply_suggestion\<close> is not caught: it leaves the
  body with the state reached so far.
\<close>

definition loop_body ::
  "(string \<Rightarrow> bool) \<Rightarrow> ('f \<Rightarrow> 'f names \<Rightarrow> error + 'f names) \<Rightarrow> 'f binary_view \<Rightarrow> 'f state \<Rightarrow> 'f result" where
  "loop_body is_derived_func_name apply_suggestion bv s =
     (let current = last (todo s);
          s1 = s\<lparr>todo := butlast (todo s)\<rparr>
      in if current \<in> done_set s1 then Inr s1
         else if (\<forall>callee \<in> set (callees bv current). callee \<in> done_set s1) then
           (if \<not> is_derived_func_name (names s1 current) then
              (let s2 = s1\<lparr>log := log s1 @ [Applied current]\<rparr>
               in case apply_suggestion current (names s2) of
                    Inl e \<Rightarrow> Inl (e, s2)
                  | Inr nm \<Rightarrow> Inr (requeue bv current (mark_done current (s2\<lparr>names := nm\<rparr>))))
            else Inr (requeue bv current (mark_done current s1)))
         else Inr (requeue bv current s1))"

text \<open>The \<^verbatim>\<open>while\<close> loop. It need not end: \<open>None\<close> is a run that goes on for ever.\<close>

partial_function (option) while_loop ::
  "(string \<Rightarrow> bool) \<Rightarrow> ('f \<Rightarrow> 'f names \<Rightarrow> error + 'f names) \<Rightarrow> 'f binary_view \<Rightarrow> 'f state \<Rightarrow> 'f result option" where
  "while_loop is_derived_func_name apply_suggestion bv s =
     (if length (todo s) \<noteq> 0 then
        (case loop_body is_derived_func_name apply_suggestion bv s of
           Inl x \<Rightarrow> Some (Inl x)
         | Inr s' \<Rightarrow> while_loop is_derived_func_name apply_suggestion bv s')
      else Some (Inr s))"

text \<open>The first \<open>n\<close> iterations of the loop (fewer when it ends before).\<close>

fun iterations ::
  "(string \<Rightarrow> bool) \<Rightarrow> ('f \<Rightarrow> 'f names \<Rightarrow> error + 'f names) \<Rightarrow> 'f binary_view \<Rightarrow> nat \<Rightarrow> 'f state \<Rightarrow> 'f result" where
  "iterations is_derived_func_name apply_suggestion bv 0 s = Inr s"
| "iterations is_derived_func_name apply_suggestion bv (Suc n) s =
     (if length (todo s) \<noteq> 0 then
        (case loop_body is_derived_func_name apply_suggestion bv s of
           Inl x \<Rightarrow> Inl x
         | Inr s' \<Rightarrow> iterations is_derived_func_name apply_suggestion bv n s')
      else Inr s)"

text \<open>Lines 82 to 90: the state in which the loop starts.\<close>

definition initial_state :: "'f binary_view \<Rightarrow> 'f names \<Rightarrow> 'f state" where
  "initial_state bv nm =
     (let s0 = \<lparr>todo = [], done_set = {}, names = nm, log = []\<rparr>
      in s0\<lparr>todo := todo s0 @ filter (\<lambda>f. f \<notin> done_set s0) (bv_functions bv)\<rparr>)"

definition plugin_wrapper_rename_all_functions ::
  "(string \<Rightarrow> bool) \<Rightarrow> 'f applier \<Rightarrow> 'f binary_view \<Rightarrow> manager \<times> 'f names \<Rightarrow> (manager \<times> 'f result) option" where
  "plugin_wrapper_rename_all_functions is_derived_func_name apply_suggestion bv w =
     (let (gpt, m) = get_instance (fst w)
      in map_option (Pair m)
           (while_loop is_derived_func_name (apply_suggestion gpt) bv (initial_state bv (snd w))))"

text \<open>The state in which a run ended, or was left by an exception.\<close>

definition last_state :: "'f result \<Rightarrow> 'f state" where
  "last_state r = (case r of Inl x \<Rightarrow> snd x | Inr s \<Rightarrow> s)"

text \<open>The functions marked done in a log, and the functions handed to \<^verbatim>\<open>apply_suggestion\<close>,
  both in the order of the log.\<close>

fun done_order :: "'f event list \<Rightarrow> 'f list" where
  "done_order [] = []"
| "done_order (MarkedDone f # es) = f # done_order es"
| "done_order (Applied f # es) = done_order es"

fun applied_order :: "'f event list \<Rightarrow> 'f list" where
  "applied_order [] = []"
| "applied_order (Applied f # es) = f # applied_order es"
| "applied_order (MarkedDone f # es) = applied_order es"

text \<open>The call graph as a relation: the pairs (callee, caller).\<close>

definition callee_rel :: "'f binary_view \<Rightarrow> ('f \<times> 'f) set" where
  "callee_rel bv = {(c, f). c \<in> set (callees bv f)}"

text \<open>In a list of functions, every function comes after all its callees.\<close>

definition callees_first :: "'f binary_view \<Rightarrow> 'f list \<Rightarrow> bool" where
  "callees_first bv ds \<longleftrightarrow>
     (\<forall>i \<in> {0..<length ds}. set (callees bv (ds ! i)) \<subseteq> set (take i ds))"

text \<open>What holds of the log and of the set \<^verbatim>\<open>done\<close> throughout a run.\<close>

definition log_inv :: "'f binary_view \<Rightarrow> 'f state \<Rightarrow> bool" where
  "log_inv bv s \<longleftrightarrow>
     distinct (done_order (log s)) \<and> distinct (applied_order (log s)) \<and>
     done_set s = set (done_order (log s)) \<and> callees_first bv (done_order (log s))"

definition applied_inv :: "'f state \<Rightarrow> bool" where
  "applied_inv s \<longleftrightarrow> set (applied_order (log s)) \<subseteq> done_set s"

text \<open>The set \<^verbatim>\<open>done\<close> is closed under callees and holds no function that lies on a cycle of calls.\<close>

definition closed_inv :: "'f binary_view \<Rightarrow> 'f state \<Rightarrow> bool" where
  "closed_inv bv s \<longleftrightarrow>
     (\<forall>g \<in> done_set s. set (callees bv g) \<subseteq> done_set s \<and> (g, g) \<notin> (callee_rel bv)\<^sup>+)"

subsection \<open>Example inputs\<close>

text \<open>A classifier in the manner of the host: a name is derived unless it starts with \<open>sub_\<close>.\<close>

definition sub_classifier :: "string \<Rightarrow> bool" where
  "sub_classifier n = (take 4 n \<noteq> ''sub_'')"

text \<open>
  An \<^verbatim>\<open>apply_suggestion\<close> that returns and renames the function, and no other, to the name
  \<open>sugg\<close> gives (every applier that never raises and leaves the other names alone is of
  this form), and one that raises on the function \<open>x\<close>.
\<close>

definition rename_applier :: "(wrapper \<Rightarrow> 'f \<Rightarrow> 'f names \<Rightarrow> string) \<Rightarrow> 'f applier" where
  "rename_applier sugg gpt f nm = Inr (nm(f := sugg gpt f nm))"

definition failing_applier :: "'f \<Rightarrow> (wrapper \<Rightarrow> 'f \<Rightarrow> 'f names \<Rightarrow> string) \<Rightarrow> 'f applier" where
  "failing_applier x sugg gpt f nm =
     (if f = x then Inl SuggestionError else Inr (nm(f := sugg gpt f nm)))"

text \<open>The snapshot \<open>main \<rightarrow> helper1 \<rightarrow> helper2\<close>, its functions listed in the order \<open>fs\<close>.\<close>

datatype fn = Main | Helper1 | Helper2

definition chain_bv :: "fn list \<Rightarrow> fn binary_view" where
  "chain_bv fs =
     \<lparr>bv_functions = fs,
      callees = (\<lambda>f. case f of Main \<Rightarrow> [Helper1] | Helper1 \<Rightarrow> [Helper2] | Helper2 \<Rightarrow> [])\<rparr>"

definition placeholder_names :: "fn names" where
  "placeholder_names f = (case f of Main \<Rightarrow> ''sub_401000'' | Helper1 \<Rightarrow> ''sub_401100'' | Helper2 \<Rightarrow> ''sub_401200'')"

definition symbol_names :: "fn names" where
  "symbol_names f = (case f of Main \<Rightarrow> ''main'' | Helper1 \<Rightarrow> ''helper1'' | Helper2 \<Rightarrow> ''helper2'')"

definition suggested :: "wrapper \<Rightarrow> fn \<Rightarrow> fn names \<Rightarrow> string" where
  "suggested gpt f nm = (case f of Main \<Rightarrow> ''run'' | Helper1 \<Rightarrow> ''parse'' | Helper2 \<Rightarrow> ''read_byte'')"

text \<open>The state of a run on that snapshot once helper2 has been renamed and marked done.\<close>

definition after_helper2 :: "fn state" where
  "after_helper2 =
     \<lparr>todo = [Main, Helper1], done_set = {Helper2},
      names = placeholder_names(Helper2 := ''read_byte''),
      log = [Applied Helper2, MarkedDone Helper2]\<rparr>"

text \<open>An \<^verbatim>\<open>apply_suggestion\<close> that has no suggestion for the function \<open>x\<close>: it returns and
  leaves the names as they are.\<close>

definition no_suggestion_applier :: "'f \<Rightarrow> (wrapper \<Rightarrow> 'f \<Rightarrow> 'f names \<Rightarrow> string) \<Rightarrow> 'f applier" where
  "no_suggestion_applier x sugg gpt f nm =
     (if f = x then Inr nm else Inr (nm(f := sugg gpt f nm)))"

text \<open>A function that calls itself, and two functions that call each other; all of them
  with placeholder names.\<close>

definition recursive_bv :: "bool binary_view" where
  "recursive_bv = \<lparr>bv_functions = [True], callees = (\<lambda>f. if f then [True] else [])\<rparr>"

definition mutual_bv :: "bool binary_view" where
  "mutual_bv = \<lparr>bv_functions = [True, False], callees = (\<lambda>f. [\<not> f])\<rparr>"

definition unnamed :: "bool names" where
  "unnamed f = (if f then ''sub_401000'' else ''sub_401100'')"

definition renamed :: "wrapper \<Rightarrow> bool \<Rightarrow> bool names \<Rightarrow> string" where
  "renamed gpt f nm = (if f then ''first'' else ''second'')"

section \<open>One iteration of the loop\<close>

lemma loop_body_skip:
  "last (todo s) \<in> done_set s \<Longrightarrow> loop_body cls app bv s = Inr (s\<lparr>todo := butlast (todo s)\<rparr>)"
  by (simp add: loop_body_def)

lemma loop_body_unready:
  "last (todo s) \<notin> done_set s \<Longrightarrow> \<not> set (callees bv (last (todo s))) \<subseteq> done_set s \<Longrightarrow>
   loop_body cls app bv s = Inr (requeue bv (last (todo s)) (s\<lparr>todo := butlast (todo s)\<rparr>))"
  by (auto simp add: loop_body_def Let_def)

lemma loop_body_ready_derived:
  "last (todo s) \<notin> done_set s \<Longrightarrow> set (callees bv (last (todo s))) \<subseteq> done_set s \<Longrightarrow>
   cls (names s (last (todo s))) \<Longrightarrow>
   loop_body cls app bv s =
     Inr (requeue bv (last (todo s)) (mark_done (last (todo s)) (s\<lparr>todo := butlast (todo s)\<rparr>)))"
  by (auto simp add: loop_body_def Let_def)

lemma loop_body_ready_raise:
  "last (todo s) \<notin> done_set s \<Longrightarrow> set (callees bv (last (todo s))) \<subseteq> done_set s \<Longrightarrow>
   \<not> cls (names s (last (todo s))) \<Longrightarrow> app (last (todo s)) (names s) = Inl e \<Longrightarrow>
   loop_body cls app bv s =
     Inl (e, s\<lparr>todo := butlast (todo s), log := log s @ [Applied (last (todo s))]\<rparr>)"
  by (auto simp add: loop_body_def Let_def)

lemma loop_body_ready_applied:
  "last (todo s) \<notin> done_set s \<Longrightarrow> set (callees bv (last (todo s))) \<subseteq> done_set s \<Longrightarrow>
   \<not> cls (names s (last (todo s))) \<Longrightarrow> app (last (todo s)) (names s) = Inr nm \<Longrightarrow>
   loop_body cls app bv s =
     Inr (requeue bv (last (todo s)) (mark_done (last (todo s))
            (s\<lparr>todo := butlast (todo s), log := log s @ [Applied (last (todo s))], names := nm\<rparr>)))"
  by (auto simp add: loop_body_def Let_def)

text \<open>The five cases of one iteration.\<close>

lemma loop_body_cases:
  obtains
    (skip) "last (todo s) \<in> done_set s"
      "loop_body cls app bv s = Inr (s\<lparr>todo := butlast (todo s)\<rparr>)"
  | (unready) "last (todo s) \<notin> done_set s" "\<not> set (callees bv (last (todo s))) \<subseteq> done_set s"
      "loop_body cls app bv s = Inr (requeue bv (last (todo s)) (s\<lparr>todo := butlast (todo s)\<rparr>))"
  | (derived) "last (todo s) \<notin> done_set s" "set (callees bv (last (todo s))) \<subseteq> done_set s"
      "cls (names s (last (todo s)))"
      "loop_body cls app bv s =
         Inr (requeue bv (last (todo s)) (mark_done (last (todo s)) (s\<lparr>todo := butlast (todo s)\<rparr>)))"
  | (raise) e where "last (todo s) \<notin> done_set s" "set (callees bv (last (todo s))) \<subseteq> done_set s"
      "\<not> cls (names s (last (todo s)))" "app (last (todo s)) (names s) = Inl e"
      "loop_body cls app bv s =
         Inl (e, s\<lparr>todo := butlast (todo s), log := log s @ [Applied (last (todo s))]\<rparr>)"
  | (applied) nm where "last (todo s) \<notin> done_set s" "set (callees bv (last (todo s))) \<subseteq> done_set s"
      "\<not> cls (names s (last (todo s)))" "app (last (todo s)) (names s) = Inr nm"
      "loop_body cls app bv s =
         Inr (requeue bv (last (todo s)) (mark_done (last (todo s))
            (s\<lparr>todo := butlast (todo s), log := log s @ [Applied (last (todo s))], names := nm\<rparr>)))"
proof (cases "last (todo s) \<in> done_set s")
  case True
  then show ?thesis using skip loop_body_skip by blast
next
  case nd: False
  show ?thesis
  proof (cases "set (callees bv (last (todo s))) \<subseteq> done_set s")
    case False
    then show ?thesis using nd unready loop_body_unready by blast
  next
    case rdy: True
    show ?thesis
    proof (cases "cls (names s (last (todo s)))")
      case True
      then show ?thesis using nd rdy derived loop_body_ready_derived by blast
    next
      case ncls: False
      show ?thesis
      proof (cases "app (last (todo s)) (names s)")
        case (Inl e)
        then show ?thesis using nd rdy ncls raise loop_body_ready_raise by blast
      next
        case (Inr nm)
        then show ?thesis using nd rdy ncls applied loop_body_ready_applied by blast
      qed
    qed
  qed
qed

lemma done_set_requeue [simp]: "done_set (requeue bv c s) = done_set s"
  by (simp add: requeue_def)
lemma log_requeue [simp]: "log (requeue bv c s) = log s"
  by (simp add: requeue_def)
lemma names_requeue [simp]: "names (requeue bv c s) = names s"
  by (simp add: requeue_def)
lemma todo_requeue [simp]:
  "todo (requeue bv c s) = todo s @ c # filter (\<lambda>callee. callee \<notin> done_set s) (callees bv c)"
  by (simp add: requeue_def)
lemma done_set_mark_done [simp]: "done_set (mark_done c s) = insert c (done_set s)"
  by (simp add: mark_done_def)
lemma log_mark_done [simp]: "log (mark_done c s) = log s @ [MarkedDone c]"
  by (simp add: mark_done_def)
lemma names_mark_done [simp]: "names (mark_done c s) = names s"
  by (simp add: mark_done_def)
lemma todo_mark_done [simp]: "todo (mark_done c s) = todo s"
  by (simp add: mark_done_def)

section \<open>Runs of the loop\<close>

lemma done_order_append [simp]: "done_order (xs @ ys) = done_order xs @ done_order ys"
  by (induction xs rule: done_order.induct) simp_all

lemma applied_order_append [simp]: "applied_order (xs @ ys) = applied_order xs @ applied_order ys"
  by (induction xs rule: applied_order.induct) simp_all

lemma callees_first_snoc:
  "callees_first bv ds \<Longrightarrow> set (callees bv f) \<subseteq> set ds \<Longrightarrow> callees_first bv (ds @ [f])"
  by (auto simp add: callees_first_def nth_append less_Suc_eq)

lemma callees_firstD:
  assumes "callees_first bv ds" and "ds = xs @ f # ys" and "c \<in> set (callees bv f)"
  shows "c \<in> set xs"
proof -
  have "length xs \<in> {0..<length ds}" "ds ! length xs = f" "take (length xs) ds = xs"
    using assms(2) by simp_all
  then show ?thesis using assms(1,3) unfolding callees_first_def by fastforce
qed

lemma log_inv_initial: "log_inv bv (initial_state bv nm)"
  by (simp add: log_inv_def initial_state_def callees_first_def)

lemma applied_inv_initial: "applied_inv (initial_state bv nm)"
  by (simp add: applied_inv_def initial_state_def)

lemma loop_body_inv:
  assumes "log_inv bv s" and "applied_inv s"
  shows "case loop_body cls app bv s of
           Inl x \<Rightarrow> log_inv bv (snd x)
         | Inr s' \<Rightarrow> log_inv bv s' \<and> applied_inv s'"
proof (cases rule: loop_body_cases [where s = s and cls = cls and app = app and bv = bv])
  case skip
  then show ?thesis using assms by (simp add: log_inv_def applied_inv_def)
next
  case unready
  then show ?thesis using assms by (simp add: log_inv_def applied_inv_def)
next
  case derived
  then show ?thesis using assms
    by (auto simp add: log_inv_def applied_inv_def callees_first_snoc)
next
  case (raise e)
  then show ?thesis using assms
    by (auto simp add: log_inv_def applied_inv_def)
next
  case (applied nm)
  then show ?thesis using assms
    by (auto simp add: log_inv_def applied_inv_def callees_first_snoc)
qed


lemma iterations_inv:
  "log_inv bv s \<Longrightarrow> applied_inv s \<Longrightarrow>
   log_inv bv (last_state (iterations cls app bv n s)) \<and>
   (\<forall>s'. iterations cls app bv n s = Inr s' \<longrightarrow> applied_inv s')"
proof (induction n arbitrary: s)
  case 0
  then show ?case by (simp add: last_state_def)
next
  case (Suc n)
  show ?case
  proof (cases "todo s = []")
    case True
    then show ?thesis using Suc.prems by (simp add: last_state_def)
  next
    case ne: False
    show ?thesis
    proof (cases "loop_body cls app bv s")
      case (Inl x)
      then show ?thesis using ne loop_body_inv [OF Suc.prems, of cls app]
        by (simp add: last_state_def)
    next
      case (Inr s')
      then have "log_inv bv s'" "applied_inv s'"
        using loop_body_inv [OF Suc.prems, of cls app] by simp_all
      then show ?thesis using Suc.IH [of s'] ne Inr by simp
    qed
  qed
qed


lemma iterations_add:
  "iterations cls app bv (k + j) s =
     (case iterations cls app bv k s of Inl x \<Rightarrow> Inl x | Inr s' \<Rightarrow> iterations cls app bv j s')"
proof (induction k arbitrary: s)
  case 0
  then show ?case by simp
next
  case (Suc k)
  show ?case
  proof (cases "todo s = []")
    case True
    then show ?thesis by (cases j) simp_all
  next
    case False
    then show ?thesis using Suc.IH by (simp split: sum.splits)
  qed
qed


lemma while_loop_iterations:
  assumes "while_loop cls app bv s = Some r"
  shows "\<exists>n. iterations cls app bv n s = r \<and> (\<forall>s'. r = Inr s' \<longrightarrow> todo s' = [])"
  using assms
proof (induction rule: while_loop.raw_induct [rotated 1, consumes 1])
  case (1 W cls app bv s r)
  show ?case
  proof (cases "todo s = []")
    case True
    then have "iterations cls app bv 0 s = r" using 1(2) by simp
    moreover have "\<forall>s'. r = Inr s' \<longrightarrow> todo s' = []" using True 1(2) by auto
    ultimately show ?thesis by blast
  next
    case ne: False
    show ?thesis
    proof (cases "loop_body cls app bv s")
      case (Inl x)
      then have r: "r = Inl x" using ne 1(2) by simp
      have "iterations cls app bv (Suc 0) s = r" using ne Inl by (simp add: r)
      moreover have "\<forall>s'. r = Inr s' \<longrightarrow> todo s' = []" by (simp add: r)
      ultimately show ?thesis by blast
    next
      case (Inr s1)
      then have "W cls app bv s1 = Some r" using ne 1(2) by simp
      from 1(1) [OF this]
      obtain n where "iterations cls app bv n s1 = r" "\<forall>s'. r = Inr s' \<longrightarrow> todo s' = []"
        by blast
      then have "iterations cls app bv (Suc n) s = r" using ne Inr by simp
      then show ?thesis using \<open>\<forall>s'. r = Inr s' \<longrightarrow> todo s' = []\<close> by blast
    qed
  qed
qed

lemma iterations_while_loop:
  "iterations cls app bv n s = r \<Longrightarrow> (\<forall>s'. r = Inr s' \<longrightarrow> todo s' = []) \<Longrightarrow>
   while_loop cls app bv s = Some r"
proof (induction n arbitrary: s)
  case 0
  then show ?case by (simp add: while_loop.simps)
next
  case (Suc n)
  show ?case
  proof (cases "todo s = []")
    case True
    then show ?thesis using Suc.prems by (simp add: while_loop.simps)
  next
    case ne: False
    show ?thesis
    proof (cases "loop_body cls app bv s")
      case (Inl x)
      then have "r = Inl x" using ne Suc.prems(1) by simp
      then show ?thesis using ne Inl by (simp add: while_loop.simps)
    next
      case (Inr s1)
      then have "iterations cls app bv n s1 = r" using ne Suc.prems by simp
      then have "while_loop cls app bv s1 = Some r" using Suc.IH Suc.prems(2) by blast
      then show ?thesis using ne Inr by (simp add: while_loop.simps)
    qed
  qed
qed

section \<open>Termination on well-founded call graphs\<close>

lemma while_loop_step:
  "todo s \<noteq> [] \<Longrightarrow> loop_body cls app bv s = Inr s' \<Longrightarrow>
   while_loop cls app bv s = while_loop cls app bv s'"
  by (subst while_loop.simps) simp

lemma while_loop_raise:
  "todo s \<noteq> [] \<Longrightarrow> loop_body cls app bv s = Inl x \<Longrightarrow>
   while_loop cls app bv s = Some (Inl x)"
  by (subst while_loop.simps) simp

lemma while_loop_exit:
  "todo s = [] \<Longrightarrow> while_loop cls app bv s = Some (Inr s)"
  by (subst while_loop.simps) simp

text \<open>A function on top of the worklist whose callees are all done leaves the worklist
  within two iterations, done.\<close>

lemma while_loop_ready:
  assumes top: "todo s = rest @ [f]" and rdy: "set (callees bv f) \<subseteq> done_set s"
  shows "(\<exists>x. while_loop cls app bv s = Some (Inl x)) \<or>
         (\<exists>s'. while_loop cls app bv s = while_loop cls app bv s' \<and> todo s' = rest \<and>
               done_set s' = insert f (done_set s))"
proof -
  have ne: "todo s \<noteq> []" and lst: "last (todo s) = f" and bl: "butlast (todo s) = rest"
    using top by simp_all
  have no_callee: "filter (\<lambda>callee. callee \<noteq> f \<and> callee \<notin> done_set s) (callees bv f) = []"
    using rdy by (auto simp add: filter_empty_conv)
  have again: "\<exists>s'. while_loop cls app bv s1 = while_loop cls app bv s' \<and> todo s' = rest \<and>
                    done_set s' = insert f (done_set s)"
    if "todo s1 = rest @ [f]" "done_set s1 = insert f (done_set s)" for s1 :: "'a state"
  proof -
    have lb: "loop_body cls app bv s1 = Inr (s1\<lparr>todo := butlast (todo s1)\<rparr>)"
      using that by (simp add: loop_body_skip)
    have "todo s1 \<noteq> []" using that(1) by simp
    from while_loop_step [OF this lb]
    have "while_loop cls app bv s1 = while_loop cls app bv (s1\<lparr>todo := butlast (todo s1)\<rparr>)" .
    moreover have "todo (s1\<lparr>todo := butlast (todo s1)\<rparr>) = rest"
      "done_set (s1\<lparr>todo := butlast (todo s1)\<rparr>) = insert f (done_set s)"
      using that by simp_all
    ultimately show ?thesis by blast
  qed
  show ?thesis
  proof (cases rule: loop_body_cases [where s = s and cls = cls and app = app and bv = bv])
    case skip
    then have "while_loop cls app bv s = while_loop cls app bv (s\<lparr>todo := butlast (todo s)\<rparr>)"
      using ne while_loop_step by blast
    then show ?thesis using skip(1) lst bl by auto
  next
    case unready
    then show ?thesis using rdy lst by simp
  next
    case derived
    let ?s1 = "requeue bv f (mark_done f (s\<lparr>todo := rest\<rparr>))"
    have "loop_body cls app bv s = Inr ?s1" using derived(4) by (simp add: lst bl)
    from while_loop_step [OF ne this]
    have w: "while_loop cls app bv s = while_loop cls app bv ?s1" .
    have "todo ?s1 = rest @ [f]" using no_callee by simp
    moreover have "done_set ?s1 = insert f (done_set s)" by simp
    ultimately obtain s' where "while_loop cls app bv ?s1 = while_loop cls app bv s'"
      "todo s' = rest" "done_set s' = insert f (done_set s)"
      using again [of ?s1] by blast
    then have "while_loop cls app bv s = while_loop cls app bv s' \<and> todo s' = rest \<and>
               done_set s' = insert f (done_set s)" using w by simp
    then show ?thesis by blast
  next
    case (raise e)
    then show ?thesis using ne while_loop_raise by blast
  next
    case (applied nm)
    let ?s1 = "requeue bv f (mark_done f
            (s\<lparr>todo := rest, log := log s @ [Applied f], names := nm\<rparr>))"
    have "loop_body cls app bv s = Inr ?s1" using applied(5) by (simp add: lst bl)
    from while_loop_step [OF ne this]
    have w: "while_loop cls app bv s = while_loop cls app bv ?s1" .
    have "todo ?s1 = rest @ [f]" using no_callee by simp
    moreover have "done_set ?s1 = insert f (done_set s)" by simp
    ultimately obtain s' where "while_loop cls app bv ?s1 = while_loop cls app bv s'"
      "todo s' = rest" "done_set s' = insert f (done_set s)"
      using again [of ?s1] by blast
    then have "while_loop cls app bv s = while_loop cls app bv s' \<and> todo s' = rest \<and>
               done_set s' = insert f (done_set s)" using w by simp
    then show ?thesis by blast
  qed
qed

text \<open>When every function of \<open>cs\<close> leaves the worklist done, so does the whole of \<open>cs\<close>.\<close>

lemma while_loop_finish_list:
  assumes each: "\<And>c rest (s :: 'f state). c \<in> set cs \<Longrightarrow> todo s = rest @ [c] \<Longrightarrow>
            (\<exists>x. while_loop cls app bv s = Some (Inl x)) \<or>
            (\<exists>s'. while_loop cls app bv s = while_loop cls app bv s' \<and> todo s' = rest \<and>
                  done_set s \<subseteq> done_set s' \<and> c \<in> done_set s')"
  shows "todo s = pre @ cs \<Longrightarrow>
         (\<exists>x. while_loop cls app bv s = Some (Inl x)) \<or>
         (\<exists>s'. while_loop cls app bv s = while_loop cls app bv s' \<and> todo s' = pre \<and>
               done_set s \<subseteq> done_set s' \<and> set cs \<subseteq> done_set s')"
  using each
proof (induction cs arbitrary: s rule: rev_induct)
  case Nil
  then show ?case by auto
next
  case (snoc c cs)
  have "todo s = (pre @ cs) @ [c]" using snoc.prems(1) by simp
  then consider (err) x where "while_loop cls app bv s = Some (Inl x)"
    | (ok) s1 where "while_loop cls app bv s = while_loop cls app bv s1" "todo s1 = pre @ cs"
        "done_set s \<subseteq> done_set s1" "c \<in> done_set s1"
    using snoc.prems(2) [of c s "pre @ cs"] by auto
  then show ?case
  proof cases
    case err
    then show ?thesis by blast
  next
    case ok
    have "(\<exists>x. while_loop cls app bv s1 = Some (Inl x)) \<or>
          (\<exists>s'. while_loop cls app bv s1 = while_loop cls app bv s' \<and> todo s' = pre \<and>
               done_set s1 \<subseteq> done_set s' \<and> set cs \<subseteq> done_set s')"
      using snoc.IH [OF ok(2)] snoc.prems(2) by simp
    then show ?thesis
    proof
      assume "\<exists>x. while_loop cls app bv s1 = Some (Inl x)"
      then show ?thesis using ok(1) by simp
    next
      assume "\<exists>s'. while_loop cls app bv s1 = while_loop cls app bv s' \<and> todo s' = pre \<and>
               done_set s1 \<subseteq> done_set s' \<and> set cs \<subseteq> done_set s'"
      then obtain s' where "while_loop cls app bv s1 = while_loop cls app bv s'" "todo s' = pre"
        "done_set s1 \<subseteq> done_set s'" "set cs \<subseteq> done_set s'" by blast
      then have "while_loop cls app bv s = while_loop cls app bv s' \<and> todo s' = pre \<and>
               done_set s \<subseteq> done_set s' \<and> set (cs @ [c]) \<subseteq> done_set s'"
        using ok by auto
      then show ?thesis by blast
    qed
  qed
qed

text \<open>On a well-founded call graph, the function on top of the worklist leaves it, done.\<close>

lemma while_loop_finish:
  assumes wf: "wf (callee_rel bv)"
  shows "todo s = rest @ [f] \<Longrightarrow>
         (\<exists>x. while_loop cls app bv s = Some (Inl x)) \<or>
         (\<exists>s'. while_loop cls app bv s = while_loop cls app bv s' \<and> todo s' = rest \<and>
               done_set s \<subseteq> done_set s' \<and> f \<in> done_set s')"
  using wf
proof (induction f arbitrary: s rest rule: wf_induct_rule)
  case (less f)
  have ne: "todo s \<noteq> []" and lst: "last (todo s) = f" and bl: "butlast (todo s) = rest"
    using less.prems by simp_all
  show ?case
  proof (cases "f \<in> done_set s \<or> set (callees bv f) \<subseteq> done_set s")
    case True
    then show ?thesis
    proof
      assume "f \<in> done_set s"
      then have "while_loop cls app bv s = while_loop cls app bv (s\<lparr>todo := butlast (todo s)\<rparr>)"
        using ne lst loop_body_skip while_loop_step by metis
      then show ?thesis using bl \<open>f \<in> done_set s\<close> by auto
    next
      assume "set (callees bv f) \<subseteq> done_set s"
      then show ?thesis using while_loop_ready [OF less.prems, of bv cls app] by auto
    qed
  next
    case False
    then have nd: "last (todo s) \<notin> done_set s" and nr: "\<not> set (callees bv (last (todo s))) \<subseteq> done_set s"
      using lst by simp_all
    let ?cs = "filter (\<lambda>callee. callee \<notin> done_set s) (callees bv f)"
    let ?s1 = "requeue bv (last (todo s)) (s\<lparr>todo := butlast (todo s)\<rparr>)"
    have w1: "while_loop cls app bv s = while_loop cls app bv ?s1"
      using loop_body_unready [OF nd nr] ne while_loop_step by blast
    have t1: "todo ?s1 = (rest @ [f]) @ ?cs" and d1: "done_set ?s1 = done_set s"
      using lst bl by simp_all
    have each: "(\<exists>x. while_loop cls app bv t = Some (Inl x)) \<or>
            (\<exists>s'. while_loop cls app bv t = while_loop cls app bv s' \<and> todo s' = r \<and>
                  done_set t \<subseteq> done_set s' \<and> c \<in> done_set s')"
      if "c \<in> set ?cs" "todo t = r @ [c]" for c r and t :: "'a state"
    proof -
      have "(c, f) \<in> callee_rel bv" using that(1) by (simp add: callee_rel_def)
      then show ?thesis using less.IH that(2) by blast
    qed
    from while_loop_finish_list [where cs = ?cs and s = ?s1 and pre = "rest @ [f]", OF each t1]
    consider (err) x where "while_loop cls app bv ?s1 = Some (Inl x)"
      | (ok) s2 where "while_loop cls app bv ?s1 = while_loop cls app bv s2" "todo s2 = rest @ [f]"
          "done_set ?s1 \<subseteq> done_set s2" "set ?cs \<subseteq> done_set s2"
      by blast
    then show ?thesis
    proof cases
      case err
      then show ?thesis using w1 by simp
    next
      case ok
      have "set (callees bv f) \<subseteq> done_set s2"
        using ok(3,4) d1 by auto
      from while_loop_ready [OF ok(2) this, of cls app]
      show ?thesis
      proof
        assume "\<exists>x. while_loop cls app bv s2 = Some (Inl x)"
        then show ?thesis using w1 ok(1) by simp
      next
        assume "\<exists>s'. while_loop cls app bv s2 = while_loop cls app bv s' \<and> todo s' = rest \<and>
               done_set s' = insert f (done_set s2)"
        then obtain s' where s': "while_loop cls app bv s2 = while_loop cls app bv s'" "todo s' = rest"
               "done_set s' = insert f (done_set s2)" by blast
        have "while_loop cls app bv s = while_loop cls app bv s'" using w1 ok(1) s'(1) by simp
        moreover have "done_set s \<subseteq> done_set s'" "f \<in> done_set s'" using s'(3) ok(3) d1 by auto
        ultimately show ?thesis using s'(2) by blast
      qed
    qed
  qed
qed

text \<open>Hence the loop ends, from any state, and everything that was on the worklist is done.\<close>

lemma while_loop_terminates:
  assumes wf: "wf (callee_rel bv)"
  shows "\<exists>r. while_loop cls app bv s = Some r \<and>
             (\<forall>s'. r = Inr s' \<longrightarrow> todo s' = [] \<and> done_set s \<union> set (todo s) \<subseteq> done_set s')"
proof -
  have each: "(\<exists>x. while_loop cls app bv t = Some (Inl x)) \<or>
            (\<exists>s'. while_loop cls app bv t = while_loop cls app bv s' \<and> todo s' = r \<and>
                  done_set t \<subseteq> done_set s' \<and> c \<in> done_set s')"
      if "c \<in> set (todo s)" "todo t = r @ [c]" for c r and t :: "'a state"
    using while_loop_finish [OF wf that(2)] .
  have "todo s = [] @ todo s" by simp
  from while_loop_finish_list [where cs = "todo s" and s = s and pre = "[]", OF each this]
  show ?thesis
  proof
    assume "\<exists>x. while_loop cls app bv s = Some (Inl x)"
    then show ?thesis by auto
  next
    assume "\<exists>s'. while_loop cls app bv s = while_loop cls app bv s' \<and> todo s' = [] \<and>
               done_set s \<subseteq> done_set s' \<and> set (todo s) \<subseteq> done_set s'"
    then obtain s' where s': "while_loop cls app bv s = while_loop cls app bv s'" "todo s' = []"
               "done_set s \<subseteq> done_set s'" "set (todo s) \<subseteq> done_set s'" by blast
    then have "while_loop cls app bv s = Some (Inr s')" using while_loop_exit by metis
    then show ?thesis using s' by auto
  qed
qed

section \<open>Cycles of calls\<close>

lemma loop_body_raise_origin:
  "loop_body cls app bv s = Inl (e, a) \<Longrightarrow> app (last (todo s)) (names s) = Inl e"
  by (cases rule: loop_body_cases [where s = s and cls = cls and app = app and bv = bv]) simp_all

lemma iterations_raise_origin:
  "iterations cls app bv n s = Inl (e, a) \<Longrightarrow> \<exists>f nm. app f nm = Inl e"
proof (induction n arbitrary: s)
  case 0
  then show ?case by simp
next
  case (Suc n)
  show ?case
  proof (cases "loop_body cls app bv s")
    case (Inl x)
    then have "loop_body cls app bv s = Inl (e, a)" using Suc.prems by (simp split: if_splits)
    then show ?thesis using loop_body_raise_origin by fast
  next
    case (Inr s')
    then have "iterations cls app bv n s' = Inl (e, a)" using Suc.prems by (simp split: if_splits)
    then show ?thesis using Suc.IH by blast
  qed
qed

lemma while_loop_raise_origin:
  "while_loop cls app bv s = Some (Inl (e, a)) \<Longrightarrow> \<exists>f nm. app f nm = Inl e"
  using while_loop_iterations iterations_raise_origin by fast

lemma closed_inv_reach:
  assumes inv: "closed_inv bv s" and g: "g \<in> done_set s" and r: "(c, g) \<in> (callee_rel bv)\<^sup>*"
  shows "c \<in> done_set s"
  using r g
proof (induction rule: converse_rtrancl_induct)
  case base
  then show ?case .
next
  case (step c d)
  then have "d \<in> done_set s" by simp
  then have "set (callees bv d) \<subseteq> done_set s" using inv by (simp add: closed_inv_def)
  then show ?case using step(1) by (auto simp add: callee_rel_def)
qed

lemma closed_inv_insert:
  assumes inv: "closed_inv bv s" and nd: "f \<notin> done_set s" and rdy: "set (callees bv f) \<subseteq> done_set s"
    and d: "done_set s' = insert f (done_set s)"
  shows "closed_inv bv s'"
proof -
  have "(f, f) \<notin> (callee_rel bv)\<^sup>+"
  proof
    assume "(f, f) \<in> (callee_rel bv)\<^sup>+"
    then obtain c where c: "(f, c) \<in> (callee_rel bv)\<^sup>*" "(c, f) \<in> callee_rel bv"
      by (meson tranclD2)
    then have "c \<in> done_set s" using rdy by (auto simp add: callee_rel_def)
    then have "f \<in> done_set s" using closed_inv_reach [OF inv _ c(1)] by simp
    then show False using nd by simp
  qed
  then show ?thesis using inv rdy d by (auto simp add: closed_inv_def)
qed

lemma loop_body_closed_inv:
  assumes "closed_inv bv s" and "loop_body cls app bv s = Inr s'"
  shows "closed_inv bv s'"
proof (cases rule: loop_body_cases [where s = s and cls = cls and app = app and bv = bv])
  case skip
  then show ?thesis using assms by (auto simp add: closed_inv_def)
next
  case unready
  then show ?thesis using assms by (auto simp add: closed_inv_def)
next
  case derived
  then show ?thesis using assms closed_inv_insert [OF assms(1) derived(1,2), of s'] by auto
next
  case (raise e)
  then show ?thesis using assms by simp
next
  case (applied nm)
  then show ?thesis using assms closed_inv_insert [OF assms(1) applied(1,2), of s'] by auto
qed

lemma loop_body_keeps_cyclic:
  assumes inv: "closed_inv bv s" and cyc: "(f, f) \<in> (callee_rel bv)\<^sup>+" and mem: "f \<in> set (todo s)"
    and lb: "loop_body cls app bv s = Inr s'"
  shows "f \<in> set (todo s')"
proof -
  have nd: "f \<notin> done_set s" using inv cyc by (auto simp add: closed_inv_def)
  have ne: "todo s \<noteq> []" using mem by auto
  then have split: "f = last (todo s) \<or> f \<in> set (butlast (todo s))"
    using mem by (metis append_butlast_last_id in_set_conv_decomp_last rotate1.simps(2) set_ConsD set_rotate1)
  show ?thesis
  proof (cases rule: loop_body_cases [where s = s and cls = cls and app = app and bv = bv])
    case skip
    then show ?thesis using lb split nd by auto
  next
    case unready
    then show ?thesis using lb split by auto
  next
    case derived
    then show ?thesis using lb split by auto
  next
    case (raise e)
    then show ?thesis using lb by simp
  next
    case (applied nm)
    then show ?thesis using lb split by auto
  qed
qed

lemma closed_inv_initial: "closed_inv bv (initial_state bv nm)"
  by (simp add: closed_inv_def initial_state_def)

lemma todo_initial [simp]: "todo (initial_state bv nm) = bv_functions bv"
  by (simp add: initial_state_def)

lemma iterations_cyclic:
  assumes cyc: "(f, f) \<in> (callee_rel bv)\<^sup>+"
  shows "closed_inv bv s \<Longrightarrow> f \<in> set (todo s) \<Longrightarrow> iterations cls app bv n s = Inr s' \<Longrightarrow>
         f \<in> set (todo s') \<and> f \<notin> done_set s'"
proof (induction n arbitrary: s)
  case 0
  then show ?case using cyc by (auto simp add: closed_inv_def)
next
  case (Suc n)
  have ne: "todo s \<noteq> []" using Suc.prems(2) by auto
  show ?case
  proof (cases "loop_body cls app bv s")
    case (Inl x)
    then show ?thesis using Suc.prems(3) ne by simp
  next
    case (Inr s1)
    then have "iterations cls app bv n s1 = Inr s'" using Suc.prems(3) ne by simp
    moreover have "closed_inv bv s1" using loop_body_closed_inv [OF Suc.prems(1) Inr] .
    moreover have "f \<in> set (todo s1)" using loop_body_keeps_cyclic [OF Suc.prems(1) cyc Suc.prems(2) Inr] .
    ultimately show ?thesis using Suc.IH by blast
  qed
qed

lemma while_loop_cyclic:
  assumes cyc: "(f, f) \<in> (callee_rel bv)\<^sup>+" and mem: "f \<in> set (bv_functions bv)"
  shows "while_loop cls app bv (initial_state bv nm) \<noteq> Some (Inr s')"
proof
  assume "while_loop cls app bv (initial_state bv nm) = Some (Inr s')"
  then obtain n where n: "iterations cls app bv n (initial_state bv nm) = Inr s'" "todo s' = []"
    using while_loop_iterations by blast
  have "f \<in> set (todo s')"
    using iterations_cyclic [OF cyc closed_inv_initial _ n(1)] mem by simp
  then show False using n(2) by simp
qed

lemma while_loop_cyclic_diverges:
  assumes cyc: "(f, f) \<in> (callee_rel bv)\<^sup>+" and mem: "f \<in> set (bv_functions bv)"
    and total: "\<And>g nm e. app g nm \<noteq> Inl e"
  shows "while_loop cls app bv (initial_state bv nm) = None"
proof (cases "while_loop cls app bv (initial_state bv nm)")
  case None
  then show ?thesis .
next
  case (Some r)
  show ?thesis
  proof (cases r)
    case (Inl x)
    obtain e' a where "x = (e', a)" by (cases x)
    then have "\<exists>g nm. app g nm = Inl e'" using Some Inl while_loop_raise_origin by fast
    then show ?thesis using total by blast
  next
    case (Inr s')
    then show ?thesis using Some while_loop_cyclic [OF cyc mem] by blast
  qed
qed

section \<open>The shared wrapper\<close>

lemma get_instance_initialised:
  "binja_function_name_gpt self = Some w \<Longrightarrow> get_instance self = (w, self)"
  by (simp add: get_instance_def)

lemma get_instance_fresh:
  "binja_function_name_gpt self = None \<Longrightarrow>
   get_instance self =
     (constructions self,
      self\<lparr>constructions := Suc (constructions self),
           binja_function_name_gpt := Some (constructions self)\<rparr>)"
  by (simp add: get_instance_def FunctionNameGPTWrapper_def)

lemma get_instance_seq_initialised:
  "binja_function_name_gpt self = Some w \<Longrightarrow> get_instance_seq n self = (replicate n w, self)"
  by (induction n) (simp_all add: get_instance_initialised)

lemma get_instance_seq_fresh:
  "binja_function_name_gpt self = None \<Longrightarrow>
   get_instance_seq (Suc n) self =
     (replicate (Suc n) (constructions self),
      self\<lparr>constructions := Suc (constructions self),
           binja_function_name_gpt := Some (constructions self)\<rparr>)"
  by (simp add: get_instance_fresh get_instance_seq_initialised)

section \<open>The example snapshot\<close>

lemma finite_acyclic_callee_rel_wf:
  "finite (callee_rel bv) \<Longrightarrow> acyclic (callee_rel bv) \<Longrightarrow> wf (callee_rel bv)"
  by (rule finite_acyclic_wf)

lemma fn_UNIV: "(UNIV :: fn set) = {Main, Helper1, Helper2}"
  using fn.exhaust by auto

lemma chain_bv_finite: "finite (callee_rel (chain_bv fs))"
proof -
  have "finite (UNIV :: (fn \<times> fn) set)"
    by (simp add: fn_UNIV finite_prod)
  then show ?thesis using finite_subset subset_UNIV by blast
qed

lemma chain_bv_acyclic: "acyclic (callee_rel (chain_bv fs))"
proof -
  let ?rank = "\<lambda>f. case f of Main \<Rightarrow> 2 | Helper1 \<Rightarrow> Suc 0 | Helper2 \<Rightarrow> (0::nat)"
  have "callee_rel (chain_bv fs) \<subseteq> measure ?rank"
    by (auto simp add: callee_rel_def chain_bv_def split: fn.splits)
  then have "wf (callee_rel (chain_bv fs))"
    using wf_measure wf_subset by blast
  then show ?thesis by (rule wf_acyclic)
qed

lemma chain_orders:
  assumes "distinct fs" and "set fs = {Main, Helper1, Helper2}"
  shows "fs \<in> {[Main, Helper1, Helper2], [Main, Helper2, Helper1], [Helper1, Main, Helper2],
               [Helper1, Helper2, Main], [Helper2, Main, Helper1], [Helper2, Helper1, Main]}"
proof -
  have "length fs = card {Main, Helper1, Helper2}"
    using assms distinct_card by metis
  then have "length fs = 3" by simp
  then obtain a b c where fs: "fs = [a, b, c]"
    by (auto simp add: numeral_3_eq_3 length_Suc_conv)
  show ?thesis using assms unfolding fs
    by (cases a; cases b; cases c) auto
qed

lemma chain_run_names:
  assumes ph: "\<not> cls (nm Main)" "\<not> cls (nm Helper1)" "\<not> cls (nm Helper2)"
    and fs: "fs \<in> {[Main, Helper1, Helper2], [Main, Helper2, Helper1], [Helper1, Main, Helper2],
               [Helper1, Helper2, Main], [Helper2, Main, Helper1], [Helper2, Helper1, Main]}"
  shows "\<exists>s'. while_loop cls (rename_applier sugg gpt) (chain_bv fs) (initial_state (chain_bv fs) nm)
           = Some (Inr s') \<and>
         log s' = [Applied Helper2, MarkedDone Helper2, Applied Helper1, MarkedDone Helper1,
                   Applied Main, MarkedDone Main] \<and>
         names s' =
           (let n1 = nm(Helper2 := sugg gpt Helper2 nm);
                n2 = n1(Helper1 := sugg gpt Helper1 n1)
            in n2(Main := sugg gpt Main n2))"
  using fs ph
  by (elim insertE emptyE)
     (simp_all add: while_loop.simps loop_body_def initial_state_def chain_bv_def
        rename_applier_def requeue_def mark_done_def Let_def)

section \<open>Runs of the command and example runs\<close>

lemma plugin_wrapper_rename_all_functions_iterations:
  assumes "plugin_wrapper_rename_all_functions cls app bv (m, nm) = Some (m', r)"
  shows "\<exists>n. iterations cls (app (fst (get_instance m))) bv n (initial_state bv nm) = r"
proof -
  obtain gpt m1 where g: "get_instance m = (gpt, m1)" by (cases "get_instance m")
  then have "while_loop cls (app gpt) bv (initial_state bv nm) = Some r"
    using assms by (auto simp add: plugin_wrapper_rename_all_functions_def)
  then show ?thesis using while_loop_iterations g by fastforce
qed

lemma iterations_dependency_order:
  assumes "done_order (log (last_state (iterations cls app bv n (initial_state bv nm)))) = xs @ A # ys"
    and "B \<in> set (callees bv A)"
  shows "B \<in> set xs \<and> A \<notin> set xs \<and> A \<notin> set ys"
proof -
  let ?s = "last_state (iterations cls app bv n (initial_state bv nm))"
  have inv: "log_inv bv ?s"
    using iterations_inv [OF log_inv_initial applied_inv_initial] by blast
  then have "B \<in> set xs"
    using assms callees_firstD unfolding log_inv_def by fast
  moreover have "distinct (xs @ A # ys)" using inv assms(1) by (simp add: log_inv_def)
  ultimately show ?thesis by auto
qed

lemma chain_six_iterations:
  "iterations sub_classifier (rename_applier suggested 0) (chain_bv [Main, Helper1, Helper2]) 6
     (initial_state (chain_bv [Main, Helper1, Helper2]) placeholder_names) =
   Inr \<lparr>todo = [], done_set = {Main, Helper1, Helper2},
        names = placeholder_names(Helper2 := ''read_byte'', Helper1 := ''parse'', Main := ''run''),
        log = [Applied Helper2, MarkedDone Helper2, Applied Helper1, MarkedDone Helper1,
               Applied Main, MarkedDone Main]\<rparr>"
  by (simp add: eval_nat_numeral loop_body_def initial_state_def chain_bv_def
        rename_applier_def requeue_def mark_done_def sub_classifier_def placeholder_names_def
        suggested_def)


lemma recursive_bv_cycle: "(True, True) \<in> (callee_rel recursive_bv)\<^sup>+"
  by (rule r_into_trancl) (simp add: callee_rel_def recursive_bv_def)

lemma mutual_bv_cycle: "(True, True) \<in> (callee_rel mutual_bv)\<^sup>+"
proof -
  have "(True, False) \<in> callee_rel mutual_bv" "(False, True) \<in> callee_rel mutual_bv"
    by (simp_all add: callee_rel_def mutual_bv_def)
  then show ?thesis by (meson trancl.simps)
qed

lemma plugin_wrapper_rename_all_functions_cyclic:
  assumes cyc: "(f, f) \<in> (callee_rel bv)\<^sup>+" and mem: "f \<in> set (bv_functions bv)"
  shows "plugin_wrapper_rename_all_functions cls (rename_applier sugg) bv (m, nm) = None"
proof -
  obtain gpt m1 where g: "get_instance m = (gpt, m1)" by (cases "get_instance m")
  have "while_loop cls (rename_applier sugg gpt) bv (initial_state bv nm) = None"
    by (rule while_loop_cyclic_diverges [OF cyc mem]) (simp add: rename_applier_def)
  then show ?thesis using g by (simp add: plugin_wrapper_rename_all_functions_def)
qed

lemma chain_command_result:
  "plugin_wrapper_rename_all_functions sub_classifier (rename_applier suggested)
     (chain_bv [Main, Helper1, Helper2]) (manager_init 0, placeholder_names) =
   Some (\<lparr>binja_function_name_gpt = Some 0, constructions = 1\<rparr>,
         Inr \<lparr>todo = [], done_set = {Main, Helper1, Helper2},
              names = placeholder_names(Helper2 := ''read_byte'', Helper1 := ''parse'', Main := ''run''),
              log = [Applied Helper2, MarkedDone Helper2, Applied Helper1, MarkedDone Helper1,
                     Applied Main, MarkedDone Main]\<rparr>)"
  by (simp add: plugin_wrapper_rename_all_functions_def get_instance_def manager_init_def
        FunctionNameGPTWrapper_def while_loop.simps loop_body_def initial_state_def chain_bv_def
        rename_applier_def requeue_def mark_done_def sub_classifier_def placeholder_names_def
        suggested_def)

lemma after_helper2_step:
  "loop_body sub_classifier (rename_applier suggested 0) (chain_bv [Main, Helper1, Helper2])
     after_helper2 =
   Inr \<lparr>todo = [Main, Helper1], done_set = {Helper1, Helper2},
        names = placeholder_names(Helper2 := ''read_byte'', Helper1 := ''parse''),
        log = [Applied Helper2, MarkedDone Helper2, Applied Helper1, MarkedDone Helper1]\<rparr>"
  by (simp add: after_helper2_def loop_body_def chain_bv_def
        rename_applier_def requeue_def mark_done_def sub_classifier_def placeholder_names_def
        suggested_def)

lemma after_helper2_ready:
  "todo after_helper2 \<noteq> []" "last (todo after_helper2) = Helper1"
  "last (todo after_helper2) \<notin> done_set after_helper2"
  "set (callees (chain_bv [Main, Helper1, Helper2]) (last (todo after_helper2))) \<subseteq> done_set after_helper2"
  "\<not> sub_classifier (names after_helper2 (last (todo after_helper2)))"
  by (simp_all add: after_helper2_def chain_bv_def sub_classifier_def placeholder_names_def)

section \<open>Calls of the applier in a run\<close>

lemma iterations_Suc_last:
  "iterations cls app bv (Suc n) s0 =
     (case iterations cls app bv n s0 of
        Inl x \<Rightarrow> Inl x
      | Inr s \<Rightarrow> if todo s \<noteq> [] then loop_body cls app bv s else Inr s)"
proof -
  have one: "iterations cls app bv (Suc 0) s = (if todo s \<noteq> [] then loop_body cls app bv s else Inr s)"
    for s
    by (simp split: sum.splits)
  have "iterations cls app bv (n + Suc 0) s0 =
     (case iterations cls app bv n s0 of Inl x \<Rightarrow> Inl x | Inr s \<Rightarrow> iterations cls app bv (Suc 0) s)"
    by (rule iterations_add)
  then show ?thesis by (simp only: one add_Suc_right add_0_right)
qed

text \<open>What one iteration adds to the log.\<close>

lemma loop_body_new_events:
  "\<exists>new. log (last_state (loop_body cls app bv s)) = log s @ new \<and>
         (\<forall>f. Applied f \<in> set new \<longrightarrow>
            f = last (todo s) \<and> f \<notin> done_set s \<and> set (callees bv f) \<subseteq> done_set s \<and>
            \<not> cls (names s f))"
proof (cases rule: loop_body_cases [where s = s and cls = cls and app = app and bv = bv])
  case skip
  then show ?thesis by (simp add: last_state_def)
next
  case unready
  then show ?thesis by (simp add: last_state_def)
next
  case derived
  then have "log (last_state (loop_body cls app bv s)) = log s @ [MarkedDone (last (todo s))]"
    by (simp add: last_state_def)
  then show ?thesis by fastforce
next
  case (raise e)
  then have "log (last_state (loop_body cls app bv s)) = log s @ [Applied (last (todo s))]"
    by (simp add: last_state_def)
  then show ?thesis using raise(1-3) by fastforce
next
  case (applied nm)
  then have "log (last_state (loop_body cls app bv s)) =
      log s @ [Applied (last (todo s)), MarkedDone (last (todo s))]"
    by (simp add: last_state_def)
  then show ?thesis using applied(1-3) by fastforce
qed

lemma iterations_Suc_raised:
  "iterations cls app bv n s0 = Inl x \<Longrightarrow> iterations cls app bv (Suc n) s0 = Inl x"
  by (simp add: iterations_Suc_last del: iterations.simps)

lemma iterations_Suc_ended:
  "iterations cls app bv n s0 = Inr s \<Longrightarrow> todo s = [] \<Longrightarrow> iterations cls app bv (Suc n) s0 = Inr s"
  by (simp add: iterations_Suc_last del: iterations.simps)

lemma iterations_Suc_step:
  "iterations cls app bv n s0 = Inr s \<Longrightarrow> todo s \<noteq> [] \<Longrightarrow>
   iterations cls app bv (Suc n) s0 = loop_body cls app bv s"
  by (simp add: iterations_Suc_last del: iterations.simps)

lemma applied_origin:
  "Applied f \<in> set (log (last_state (iterations cls app bv n (initial_state bv nm)))) \<Longrightarrow>
   \<exists>k s. k < n \<and> iterations cls app bv k (initial_state bv nm) = Inr s \<and> todo s \<noteq> [] \<and>
         last (todo s) = f \<and> f \<notin> done_set s \<and> set (callees bv f) \<subseteq> done_set s \<and>
         \<not> cls (names s f)"
proof (induction n)
  case 0
  have "log (initial_state bv nm) = []" by (simp add: initial_state_def)
  then show ?case using "0.prems" by (simp add: last_state_def)
next
  case (Suc n)
  let ?init = "initial_state bv nm"
  let ?P = "\<lambda>k s. iterations cls app bv k ?init = Inr s \<and> todo s \<noteq> [] \<and>
         last (todo s) = f \<and> f \<notin> done_set s \<and> set (callees bv f) \<subseteq> done_set s \<and>
         \<not> cls (names s f)"
  have earlier: "\<exists>k s. k < Suc n \<and> ?P k s"
    if prev: "Applied f \<in> set (log (last_state (iterations cls app bv n ?init)))"
  proof -
    from Suc.IH [OF prev] obtain k s where ks: "k < n" "?P k s" by blast
    have "k < Suc n" using ks(1) by simp
    then show ?thesis using ks(2) by blast
  qed
  show ?case
  proof (cases "iterations cls app bv n ?init")
    case (Inl x)
    have "iterations cls app bv (Suc n) ?init = iterations cls app bv n ?init"
      using iterations_Suc_raised [OF Inl] Inl by (simp only:)
    then have "Applied f \<in> set (log (last_state (iterations cls app bv n ?init)))"
      using Suc.prems by (simp only:)
    then show ?thesis by (rule earlier)
  next
    case (Inr s)
    show ?thesis
    proof (cases "todo s = []")
      case True
      have "iterations cls app bv (Suc n) ?init = iterations cls app bv n ?init"
        using iterations_Suc_ended [OF Inr True] Inr by (simp only:)
      then have "Applied f \<in> set (log (last_state (iterations cls app bv n ?init)))"
        using Suc.prems by (simp only:)
      then show ?thesis by (rule earlier)
    next
      case ne: False
      have nxt: "iterations cls app bv (Suc n) ?init = loop_body cls app bv s"
        using Inr ne by (rule iterations_Suc_step)
      obtain new where new: "log (last_state (loop_body cls app bv s)) = log s @ new"
        "\<forall>f. Applied f \<in> set new \<longrightarrow>
            f = last (todo s) \<and> f \<notin> done_set s \<and> set (callees bv f) \<subseteq> done_set s \<and>
            \<not> cls (names s f)"
        using loop_body_new_events [of cls app bv s] by blast
      have "Applied f \<in> set (log s @ new)"
        using Suc.prems by (simp only: nxt new(1))
      then have "Applied f \<in> set (log s) \<or> Applied f \<in> set new"
        by simp
      then show ?thesis
      proof
        assume "Applied f \<in> set (log s)"
        then have "Applied f \<in> set (log (last_state (iterations cls app bv n ?init)))"
          by (simp add: Inr last_state_def del: iterations.simps)
        then show ?thesis by (rule earlier)
      next
        assume "Applied f \<in> set new"
        then have "last (todo s) = f \<and> f \<notin> done_set s \<and> set (callees bv f) \<subseteq> done_set s \<and>
            \<not> cls (names s f)"
          using new(2) by blast
        then have "n < Suc n \<and> ?P n s" using Inr ne by (simp del: iterations.simps)
        then show ?thesis by blast
      qed
    qed
  qed
qed

lemma loop_body_ready:
  assumes "last (todo s) \<notin> done_set s"
    and "\<forall>callee \<in> set (callees bv (last (todo s))). callee \<in> done_set s"
  shows "(cls (names s (last (todo s))) \<longrightarrow>
            (\<exists>s'. loop_body cls app bv s = Inr s' \<and>
                  log s' = log s @ [MarkedDone (last (todo s))] \<and>
                  names s' = names s \<and>
                  done_set s' = insert (last (todo s)) (done_set s))) \<and>
         (\<not> cls (names s (last (todo s))) \<longrightarrow>
            (\<forall>nm. app (last (todo s)) (names s) = Inr nm \<longrightarrow>
               (\<exists>s'. loop_body cls app bv s = Inr s' \<and>
                     log s' = log s @ [Applied (last (todo s)), MarkedDone (last (todo s))] \<and>
                     names s' = nm \<and>
                     done_set s' = insert (last (todo s)) (done_set s))) \<and>
            (\<forall>e. app (last (todo s)) (names s) = Inl e \<longrightarrow>
               loop_body cls app bv s =
                 Inl (e, s\<lparr>todo := butlast (todo s), log := log s @ [Applied (last (todo s))]\<rparr>) \<and>
               last (todo s) \<notin> done_set (last_state (loop_body cls app bv s))))"
proof -
  have rdy: "set (callees bv (last (todo s))) \<subseteq> done_set s"
    using assms(2) by blast
  show ?thesis
    using assms(1) rdy
    by (simp add: loop_body_ready_derived loop_body_ready_applied loop_body_ready_raise last_state_def)
qed

lemma command_applied_origin:
  assumes "plugin_wrapper_rename_all_functions cls applier bv (m, nm) = Some (m', r)"
    and "Applied f \<in> set (log (last_state r))"
  shows "\<exists>k s. iterations cls (applier (fst (get_instance m))) bv k (initial_state bv nm) = Inr s \<and>
           todo s \<noteq> [] \<and> last (todo s) = f \<and> f \<notin> done_set s \<and>
           set (callees bv f) \<subseteq> done_set s \<and> \<not> cls (names s f)"
proof -
  from plugin_wrapper_rename_all_functions_iterations [OF assms(1)]
  obtain n where n: "iterations cls (applier (fst (get_instance m))) bv n (initial_state bv nm) = r"
    by blast
  have "Applied f \<in> set (log (last_state
          (iterations cls (applier (fst (get_instance m))) bv n (initial_state bv nm))))"
    using assms(2) by (simp only: n)
  from applied_origin [OF this] show ?thesis by blast
qed

lemma chain_first_iteration:
  "loop_body sub_classifier (rename_applier suggested 0) (chain_bv [Main, Helper1, Helper2])
     (initial_state (chain_bv [Main, Helper1, Helper2]) placeholder_names) =
   Inr \<lparr>todo = [Main, Helper1, Helper2], done_set = {Helper2},
        names = placeholder_names(Helper2 := ''read_byte''),
        log = [Applied Helper2, MarkedDone Helper2]\<rparr>"
  by (simp add: loop_body_def initial_state_def chain_bv_def rename_applier_def requeue_def
        mark_done_def sub_classifier_def placeholder_names_def suggested_def)

section \<open>One call of the manager, step by step\<close>

lemma task_steps_get_instance:
  "interleave [False, False, False, False] (Check, t2, self) =
     (Finished (Some (fst (get_instance self))), t2, snd (get_instance self))"
  by (cases "binja_function_name_gpt self")
     (simp_all add: get_instance_def FunctionNameGPTWrapper_def)

section \<open>The claims\<close>

text \<open>
  C1, as the source has it. A function popped from the worklist with all its callees done
  and a name the classifier rejects is handed to \<^verbatim>\<open>apply_suggestion\<close>; when that call
  raises, the exception leaves the loop before \<^verbatim>\<open>done.add\<close>, and the function is not in
  the set \<^verbatim>\<open>done\<close>. So it is not added in either case: here helper1, ready after helper2.
\<close>

theorem skip_invariant_counterexample:
  "todo after_helper2 \<noteq> [] \<and> last (todo after_helper2) = Helper1 \<and>
   Helper1 \<notin> done_set after_helper2 \<and>
   set (callees (chain_bv [Main, Helper1, Helper2]) Helper1) \<subseteq> done_set after_helper2 \<and>
   \<not> sub_classifier (names after_helper2 Helper1) \<and>
   loop_body sub_classifier (failing_applier Helper1 suggested 0) (chain_bv [Main, Helper1, Helper2])
       after_helper2 =
     Inl (SuggestionError,
          \<lparr>todo = [Main], done_set = {Helper2},
           names = placeholder_names(Helper2 := ''read_byte''),
           log = [Applied Helper2, MarkedDone Helper2, Applied Helper1]\<rparr>) \<and>
   Helper1 \<notin> done_set
     (last_state (loop_body sub_classifier (failing_applier Helper1 suggested 0)
        (chain_bv [Main, Helper1, Helper2]) after_helper2))"
  by (simp add: after_helper2_def loop_body_def chain_bv_def failing_applier_def
        sub_classifier_def placeholder_names_def last_state_def)

text \<open>
  C1, amended. Take any state of the whole-program loop whose worklist is not empty, and let
  the function popped from it be not yet done and have all its callees done. If the
  classifier (\<^verbatim>\<open>is_derived_func_name\<close>, the test of the source for a meaningful name)
  accepts its name, the iteration calls no \<^verbatim>\<open>apply_suggestion\<close>, and the function is
  added to the set \<^verbatim>\<open>done\<close>. If the classifier rejects its name, \<^verbatim>\<open>apply_suggestion\<close>
  is called on it; when the call returns, the function is added to the set \<^verbatim>\<open>done\<close>, and
  when the call raises, the iteration ends with that exception and the function is not
  added. Over a whole run: whatever is popped, an iteration hands to \<^verbatim>\<open>apply_suggestion\<close>
  at most the popped function, and only when it is not done, its callees are done and the
  classifier rejects the name it has at that moment; so every call of \<^verbatim>\<open>apply_suggestion\<close>
  in the log of a run, at any moment and in the result of the command, was made in such a
  state of that run.
\<close>

theorem skip_invariant:
  "(\<forall>s :: 'f state.
      todo s \<noteq> [] \<and> last (todo s) \<notin> done_set s \<and>
      (\<forall>callee \<in> set (callees bv (last (todo s))). callee \<in> done_set s) \<longrightarrow>
      (is_derived_func_name (names s (last (todo s))) \<longrightarrow>
         (\<exists>s'. loop_body is_derived_func_name apply_suggestion bv s = Inr s' \<and>
               log s' = log s @ [MarkedDone (last (todo s))] \<and>
               names s' = names s \<and>
               done_set s' = insert (last (todo s)) (done_set s))) \<and>
      (\<not> is_derived_func_name (names s (last (todo s))) \<longrightarrow>
         (\<forall>nm. apply_suggestion (last (todo s)) (names s) = Inr nm \<longrightarrow>
            (\<exists>s'. loop_body is_derived_func_name apply_suggestion bv s = Inr s' \<and>
                  log s' = log s @ [Applied (last (todo s)), MarkedDone (last (todo s))] \<and>
                  names s' = nm \<and>
                  done_set s' = insert (last (todo s)) (done_set s))) \<and>
         (\<forall>e. apply_suggestion (last (todo s)) (names s) = Inl e \<longrightarrow>
            loop_body is_derived_func_name apply_suggestion bv s =
              Inl (e, s\<lparr>todo := butlast (todo s), log := log s @ [Applied (last (todo s))]\<rparr>) \<and>
            last (todo s) \<notin>
              done_set (last_state (loop_body is_derived_func_name apply_suggestion bv s))))) \<and>
   (\<forall>s :: 'f state.
      \<exists>new. log (last_state (loop_body is_derived_func_name apply_suggestion bv s)) = log s @ new \<and>
        (\<forall>f. Applied f \<in> set new \<longrightarrow>
           f = last (todo s) \<and> f \<notin> done_set s \<and> set (callees bv f) \<subseteq> done_set s \<and>
           \<not> is_derived_func_name (names s f))) \<and>
   (\<forall>n f.
      Applied f \<in> set (log (last_state
        (iterations is_derived_func_name apply_suggestion bv n (initial_state bv nm)))) \<longrightarrow>
      (\<exists>k s. k < n \<and>
         iterations is_derived_func_name apply_suggestion bv k (initial_state bv nm) = Inr s \<and>
         todo s \<noteq> [] \<and> last (todo s) = f \<and> f \<notin> done_set s \<and>
         set (callees bv f) \<subseteq> done_set s \<and> \<not> is_derived_func_name (names s f))) \<and>
   (\<forall>m m' r f.
      plugin_wrapper_rename_all_functions is_derived_func_name applier bv (m, nm) = Some (m', r) \<and>
      Applied f \<in> set (log (last_state r)) \<longrightarrow>
      (\<exists>k s. iterations is_derived_func_name (applier (fst (get_instance m))) bv k
               (initial_state bv nm) = Inr s \<and>
         todo s \<noteq> [] \<and> last (todo s) = f \<and> f \<notin> done_set s \<and>
         set (callees bv f) \<subseteq> done_set s \<and> \<not> is_derived_func_name (names s f)))"
proof (intro conjI)
  show "\<forall>s :: 'f state.
      todo s \<noteq> [] \<and> last (todo s) \<notin> done_set s \<and>
      (\<forall>callee \<in> set (callees bv (last (todo s))). callee \<in> done_set s) \<longrightarrow>
      (is_derived_func_name (names s (last (todo s))) \<longrightarrow>
         (\<exists>s'. loop_body is_derived_func_name apply_suggestion bv s = Inr s' \<and>
               log s' = log s @ [MarkedDone (last (todo s))] \<and>
               names s' = names s \<and>
               done_set s' = insert (last (todo s)) (done_set s))) \<and>
      (\<not> is_derived_func_name (names s (last (todo s))) \<longrightarrow>
         (\<forall>nm. apply_suggestion (last (todo s)) (names s) = Inr nm \<longrightarrow>
            (\<exists>s'. loop_body is_derived_func_name apply_suggestion bv s = Inr s' \<and>
                  log s' = log s @ [Applied (last (todo s)), MarkedDone (last (todo s))] \<and>
                  names s' = nm \<and>
                  done_set s' = insert (last (todo s)) (done_set s))) \<and>
         (\<forall>e. apply_suggestion (last (todo s)) (names s) = Inl e \<longrightarrow>
            loop_body is_derived_func_name apply_suggestion bv s =
              Inl (e, s\<lparr>todo := butlast (todo s), log := log s @ [Applied (last (todo s))]\<rparr>) \<and>
            last (todo s) \<notin>
              done_set (last_state (loop_body is_derived_func_name apply_suggestion bv s))))"
  proof (intro allI impI)
    fix s :: "'f state"
    assume a: "todo s \<noteq> [] \<and> last (todo s) \<notin> done_set s \<and>
      (\<forall>callee \<in> set (callees bv (last (todo s))). callee \<in> done_set s)"
    then have a1: "last (todo s) \<notin> done_set s"
      and a2: "\<forall>callee \<in> set (callees bv (last (todo s))). callee \<in> done_set s"
      by simp_all
    show "(is_derived_func_name (names s (last (todo s))) \<longrightarrow>
         (\<exists>s'. loop_body is_derived_func_name apply_suggestion bv s = Inr s' \<and>
               log s' = log s @ [MarkedDone (last (todo s))] \<and>
               names s' = names s \<and>
               done_set s' = insert (last (todo s)) (done_set s))) \<and>
      (\<not> is_derived_func_name (names s (last (todo s))) \<longrightarrow>
         (\<forall>nm. apply_suggestion (last (todo s)) (names s) = Inr nm \<longrightarrow>
            (\<exists>s'. loop_body is_derived_func_name apply_suggestion bv s = Inr s' \<and>
                  log s' = log s @ [Applied (last (todo s)), MarkedDone (last (todo s))] \<and>
                  names s' = nm \<and>
                  done_set s' = insert (last (todo s)) (done_set s))) \<and>
         (\<forall>e. apply_suggestion (last (todo s)) (names s) = Inl e \<longrightarrow>
            loop_body is_derived_func_name apply_suggestion bv s =
              Inl (e, s\<lparr>todo := butlast (todo s), log := log s @ [Applied (last (todo s))]\<rparr>) \<and>
            last (todo s) \<notin>
              done_set (last_state (loop_body is_derived_func_name apply_suggestion bv s))))"
      by (rule loop_body_ready [OF a1 a2])
  qed
next
  show "\<forall>s :: 'f state.
      \<exists>new. log (last_state (loop_body is_derived_func_name apply_suggestion bv s)) = log s @ new \<and>
        (\<forall>f. Applied f \<in> set new \<longrightarrow>
           f = last (todo s) \<and> f \<notin> done_set s \<and> set (callees bv f) \<subseteq> done_set s \<and>
           \<not> is_derived_func_name (names s f))"
  proof
    fix s :: "'f state"
    show "\<exists>new. log (last_state (loop_body is_derived_func_name apply_suggestion bv s)) = log s @ new \<and>
        (\<forall>f. Applied f \<in> set new \<longrightarrow>
           f = last (todo s) \<and> f \<notin> done_set s \<and> set (callees bv f) \<subseteq> done_set s \<and>
           \<not> is_derived_func_name (names s f))"
      by (rule loop_body_new_events)
  qed
next
  show "\<forall>n f.
      Applied f \<in> set (log (last_state
        (iterations is_derived_func_name apply_suggestion bv n (initial_state bv nm)))) \<longrightarrow>
      (\<exists>k s. k < n \<and>
         iterations is_derived_func_name apply_suggestion bv k (initial_state bv nm) = Inr s \<and>
         todo s \<noteq> [] \<and> last (todo s) = f \<and> f \<notin> done_set s \<and>
         set (callees bv f) \<subseteq> done_set s \<and> \<not> is_derived_func_name (names s f))"
  proof (intro allI impI)
    fix n f
    assume "Applied f \<in> set (log (last_state
        (iterations is_derived_func_name apply_suggestion bv n (initial_state bv nm))))"
    then show "\<exists>k s. k < n \<and>
         iterations is_derived_func_name apply_suggestion bv k (initial_state bv nm) = Inr s \<and>
         todo s \<noteq> [] \<and> last (todo s) = f \<and> f \<notin> done_set s \<and>
         set (callees bv f) \<subseteq> done_set s \<and> \<not> is_derived_func_name (names s f)"
      by (rule applied_origin)
  qed
next
  show "\<forall>m m' r f.
      plugin_wrapper_rename_all_functions is_derived_func_name applier bv (m, nm) = Some (m', r) \<and>
      Applied f \<in> set (log (last_state r)) \<longrightarrow>
      (\<exists>k s. iterations is_derived_func_name (applier (fst (get_instance m))) bv k
               (initial_state bv nm) = Inr s \<and>
         todo s \<noteq> [] \<and> last (todo s) = f \<and> f \<notin> done_set s \<and>
         set (callees bv f) \<subseteq> done_set s \<and> \<not> is_derived_func_name (names s f))"
  proof (intro allI impI)
    fix m m' r f
    assume a: "plugin_wrapper_rename_all_functions is_derived_func_name applier bv (m, nm) = Some (m', r) \<and>
      Applied f \<in> set (log (last_state r))"
    then have a1: "plugin_wrapper_rename_all_functions is_derived_func_name applier bv (m, nm) = Some (m', r)"
      and a2: "Applied f \<in> set (log (last_state r))" by simp_all
    show "\<exists>k s. iterations is_derived_func_name (applier (fst (get_instance m))) bv k
               (initial_state bv nm) = Inr s \<and>
         todo s \<noteq> [] \<and> last (todo s) = f \<and> f \<notin> done_set s \<and>
         set (callees bv f) \<subseteq> done_set s \<and> \<not> is_derived_func_name (names s f)"
      by (rule command_applied_origin [OF a1 a2])
  qed
qed

theorem skip_invariant_witness:
  "(\<exists>s'. loop_body sub_classifier (rename_applier suggested 0) (chain_bv [Main, Helper1, Helper2])
           (initial_state (chain_bv [Main, Helper1, Helper2]) symbol_names) = Inr s' \<and>
         log s' = [MarkedDone Helper2] \<and> names s' = symbol_names \<and> done_set s' = {Helper2}) \<and>
   (\<exists>s'. loop_body sub_classifier (rename_applier suggested 0) (chain_bv [Main, Helper1, Helper2])
           (initial_state (chain_bv [Main, Helper1, Helper2]) placeholder_names) = Inr s' \<and>
         log s' = [Applied Helper2, MarkedDone Helper2] \<and>
         names s' = placeholder_names(Helper2 := ''read_byte'') \<and> done_set s' = {Helper2}) \<and>
   loop_body sub_classifier (failing_applier Helper2 suggested 0) (chain_bv [Main, Helper1, Helper2])
           (initial_state (chain_bv [Main, Helper1, Helper2]) placeholder_names) =
     Inl (SuggestionError,
          \<lparr>todo = [Main, Helper1], done_set = {}, names = placeholder_names, log = [Applied Helper2]\<rparr>) \<and>
   Helper2 \<notin> done_set (last_state
     (loop_body sub_classifier (failing_applier Helper2 suggested 0) (chain_bv [Main, Helper1, Helper2])
           (initial_state (chain_bv [Main, Helper1, Helper2]) placeholder_names))) \<and>
   Applied Helper2 \<in> set (log (last_state
     (loop_body sub_classifier (rename_applier suggested 0) (chain_bv [Main, Helper1, Helper2])
           (initial_state (chain_bv [Main, Helper1, Helper2]) placeholder_names)))) \<and>
   \<not> sub_classifier (placeholder_names Helper2) \<and>
   Applied Main \<in> set (log (last_state
     (iterations sub_classifier (rename_applier suggested 0) (chain_bv [Main, Helper1, Helper2]) 6
        (initial_state (chain_bv [Main, Helper1, Helper2]) placeholder_names)))) \<and>
   (\<exists>k s. k < 6 \<and>
      iterations sub_classifier (rename_applier suggested 0) (chain_bv [Main, Helper1, Helper2]) k
        (initial_state (chain_bv [Main, Helper1, Helper2]) placeholder_names) = Inr s \<and>
      todo s \<noteq> [] \<and> last (todo s) = Main \<and> Main \<notin> done_set s \<and>
      set (callees (chain_bv [Main, Helper1, Helper2]) Main) \<subseteq> done_set s \<and>
      \<not> sub_classifier (names s Main)) \<and>
   (\<exists>m' r. plugin_wrapper_rename_all_functions sub_classifier (rename_applier suggested)
        (chain_bv [Main, Helper1, Helper2]) (manager_init 0, placeholder_names) = Some (m', r) \<and>
      Applied Helper1 \<in> set (log (last_state r)) \<and>
      (\<exists>k s. iterations sub_classifier (rename_applier suggested (fst (get_instance (manager_init 0))))
               (chain_bv [Main, Helper1, Helper2]) k
               (initial_state (chain_bv [Main, Helper1, Helper2]) placeholder_names) = Inr s \<and>
         todo s \<noteq> [] \<and> last (todo s) = Helper1 \<and> Helper1 \<notin> done_set s \<and>
         set (callees (chain_bv [Main, Helper1, Helper2]) Helper1) \<subseteq> done_set s \<and>
         \<not> sub_classifier (names s Helper1)))"
proof -
  let ?bv = "chain_bv [Main, Helper1, Helper2]"
  let ?sym = "initial_state ?bv symbol_names"
  let ?ph = "initial_state ?bv placeholder_names"
  note inst = skip_invariant [where bv = ?bv and is_derived_func_name = sub_classifier
      and nm = placeholder_names and applier = "rename_applier suggested"]
  have rdy: "todo (initial_state ?bv nm) \<noteq> [] \<and>
      last (todo (initial_state ?bv nm)) \<notin> done_set (initial_state ?bv nm) \<and>
      (\<forall>callee \<in> set (callees ?bv (last (todo (initial_state ?bv nm)))).
             callee \<in> done_set (initial_state ?bv nm))" for nm
    by (simp add: chain_bv_def initial_state_def)
  have d: "sub_classifier (names ?sym (last (todo ?sym)))"
    by (simp add: chain_bv_def initial_state_def symbol_names_def sub_classifier_def)
  have e: "\<not> sub_classifier (names ?ph (last (todo ?ph)))"
    by (simp add: chain_bv_def initial_state_def placeholder_names_def sub_classifier_def)
  have f: "rename_applier suggested 0 (last (todo ?ph)) (names ?ph) =
           Inr (placeholder_names(Helper2 := ''read_byte''))"
    by (simp add: chain_bv_def initial_state_def rename_applier_def suggested_def)
  have g: "failing_applier Helper2 suggested 0 (last (todo ?ph)) (names ?ph) = Inl SuggestionError"
    by (simp add: chain_bv_def initial_state_def failing_applier_def)
  from inst [where apply_suggestion = "rename_applier suggested 0",
      THEN conjunct1, rule_format, OF rdy [of symbol_names], THEN conjunct1, rule_format, OF d]
  have first: "\<exists>s'. loop_body sub_classifier (rename_applier suggested 0) ?bv ?sym = Inr s' \<and>
         log s' = [MarkedDone Helper2] \<and> names s' = symbol_names \<and> done_set s' = {Helper2}"
    by (simp add: chain_bv_def initial_state_def)
  from inst [where apply_suggestion = "rename_applier suggested 0",
      THEN conjunct1, rule_format, OF rdy [of placeholder_names], THEN conjunct2, rule_format, OF e,
      THEN conjunct1, rule_format, OF f]
  have second: "\<exists>s'. loop_body sub_classifier (rename_applier suggested 0) ?bv ?ph = Inr s' \<and>
         log s' = [Applied Helper2, MarkedDone Helper2] \<and>
         names s' = placeholder_names(Helper2 := ''read_byte'') \<and> done_set s' = {Helper2}"
    by (simp add: chain_bv_def initial_state_def)
  from inst [where apply_suggestion = "failing_applier Helper2 suggested 0",
      THEN conjunct1, rule_format, OF rdy [of placeholder_names], THEN conjunct2, rule_format, OF e,
      THEN conjunct2, rule_format, OF g]
  have third: "loop_body sub_classifier (failing_applier Helper2 suggested 0) ?bv ?ph =
     Inl (SuggestionError,
          \<lparr>todo = [Main, Helper1], done_set = {}, names = placeholder_names, log = [Applied Helper2]\<rparr>) \<and>
     Helper2 \<notin> done_set (last_state
       (loop_body sub_classifier (failing_applier Helper2 suggested 0) ?bv ?ph))"
    by (simp add: chain_bv_def initial_state_def last_state_def)
  have ap2: "Applied Helper2 \<in> set (log (last_state
     (loop_body sub_classifier (rename_applier suggested 0) ?bv ?ph)))"
    by (simp add: chain_first_iteration last_state_def)
  from inst [where apply_suggestion = "rename_applier suggested 0",
      THEN conjunct2, THEN conjunct1, rule_format, of ?ph]
  obtain new where new:
    "log (last_state (loop_body sub_classifier (rename_applier suggested 0) ?bv ?ph)) = log ?ph @ new"
    "\<forall>f. Applied f \<in> set new \<longrightarrow>
           f = last (todo ?ph) \<and> f \<notin> done_set ?ph \<and> set (callees ?bv f) \<subseteq> done_set ?ph \<and>
           \<not> sub_classifier (names ?ph f)"
    by (elim exE conjE)
  have "log ?ph = []" by (simp add: initial_state_def)
  then have "Applied Helper2 \<in> set new" using ap2 new(1) by simp
  then have "\<not> sub_classifier (names ?ph Helper2)" using new(2) by blast
  then have fourth: "\<not> sub_classifier (placeholder_names Helper2)"
    by (simp add: initial_state_def)
  have apm: "Applied Main \<in> set (log (last_state
     (iterations sub_classifier (rename_applier suggested 0) ?bv 6 ?ph)))"
    by (simp add: chain_six_iterations last_state_def)
  from inst [where apply_suggestion = "rename_applier suggested 0",
      THEN conjunct2, THEN conjunct2, THEN conjunct1, rule_format, OF apm]
  have fifth: "\<exists>k s. k < 6 \<and>
      iterations sub_classifier (rename_applier suggested 0) ?bv k ?ph = Inr s \<and>
      todo s \<noteq> [] \<and> last (todo s) = Main \<and> Main \<notin> done_set s \<and>
      set (callees ?bv Main) \<subseteq> done_set s \<and> \<not> sub_classifier (names s Main)" .
  let ?r = "Inr \<lparr>todo = [], done_set = {Main, Helper1, Helper2},
              names = placeholder_names(Helper2 := ''read_byte'', Helper1 := ''parse'', Main := ''run''),
              log = [Applied Helper2, MarkedDone Helper2, Applied Helper1, MarkedDone Helper1,
                     Applied Main, MarkedDone Main]\<rparr> :: fn result"
  have cmd: "plugin_wrapper_rename_all_functions sub_classifier (rename_applier suggested) ?bv
       (manager_init 0, placeholder_names) =
       Some (\<lparr>binja_function_name_gpt = Some 0, constructions = 1\<rparr>, ?r) \<and>
     Applied Helper1 \<in> set (log (last_state ?r))"
    using chain_command_result by (simp add: last_state_def)
  from inst [where apply_suggestion = "rename_applier suggested 0",
      THEN conjunct2, THEN conjunct2, THEN conjunct2, rule_format, OF cmd]
  have sixth: "\<exists>k s. iterations sub_classifier (rename_applier suggested (fst (get_instance (manager_init 0))))
               ?bv k ?ph = Inr s \<and>
         todo s \<noteq> [] \<and> last (todo s) = Helper1 \<and> Helper1 \<notin> done_set s \<and>
         set (callees ?bv Helper1) \<subseteq> done_set s \<and> \<not> sub_classifier (names s Helper1)" .
  have sixth': "\<exists>m' r. plugin_wrapper_rename_all_functions sub_classifier
        (rename_applier suggested) ?bv (manager_init 0, placeholder_names) = Some (m', r) \<and>
      Applied Helper1 \<in> set (log (last_state r)) \<and>
      (\<exists>k s. iterations sub_classifier (rename_applier suggested (fst (get_instance (manager_init 0))))
               ?bv k ?ph = Inr s \<and>
         todo s \<noteq> [] \<and> last (todo s) = Helper1 \<and> Helper1 \<notin> done_set s \<and>
         set (callees ?bv Helper1) \<subseteq> done_set s \<and> \<not> sub_classifier (names s Helper1))"
    by (rule exI [where x = "\<lparr>binja_function_name_gpt = Some 0, constructions = 1\<rparr>"],
        rule exI [where x = ?r], intro conjI, rule cmd [THEN conjunct1],
        rule cmd [THEN conjunct2], rule sixth)
  show ?thesis
    by (intro conjI first second third [THEN conjunct1] third [THEN conjunct2] ap2 fourth apm
          fifth sixth')
qed

text \<open>
  C2, as the source has it. The command for one function has no gate: it fetches the wrapper
  and hands the function to \<^verbatim>\<open>apply_suggestion\<close>, whatever the name of the function is. The
  classifier is not an argument of the command. So a function whose name the classifier takes
  as meaningful is renamed all the same: with the names \<open>main\<close>, \<open>helper1\<close>, \<open>helper2\<close>,
  the function \<open>main\<close> is classified as derived and is renamed to \<open>run\<close>.
\<close>

theorem rename_function_counterexample:
  "sub_classifier (symbol_names Main) \<and>
   snd (plugin_wrapper_rename_function (rename_applier suggested) Main (manager_init 0, symbol_names))
     = Inr (symbol_names(Main := ''run'')) \<and>
   (symbol_names(Main := ''run'')) Main \<noteq> symbol_names Main"
  by (simp add: sub_classifier_def symbol_names_def plugin_wrapper_rename_function_def
        rename_applier_def suggested_def manager_init_def get_instance_def FunctionNameGPTWrapper_def)

text \<open>
  C2, amended. The result of the command for one function is the result of
  \<^verbatim>\<open>apply_suggestion\<close> on that function, with the wrapper that \<^verbatim>\<open>get_instance\<close> returns.
\<close>

theorem rename_function_ungated:
  "plugin_wrapper_rename_function apply_suggestion f (m, nm) =
     (snd (get_instance m), apply_suggestion (fst (get_instance m)) f nm)"
  by (simp add: plugin_wrapper_rename_function_def split: prod.splits)

text \<open>
  C3, on the source. A function that calls itself is never ready, so it goes back on the
  worklist for ever; so do two functions that call each other. With an \<^verbatim>\<open>apply_suggestion\<close>
  that never raises, the command does not return on either snapshot.
\<close>

theorem cycles_never_end:
  "plugin_wrapper_rename_all_functions sub_classifier (rename_applier renamed) recursive_bv
     (manager_init 0, unnamed) = None \<and>
   plugin_wrapper_rename_all_functions sub_classifier (rename_applier renamed) mutual_bv
     (manager_init 0, unnamed) = None"
proof
  show "plugin_wrapper_rename_all_functions sub_classifier (rename_applier renamed) recursive_bv
     (manager_init 0, unnamed) = None"
    by (rule plugin_wrapper_rename_all_functions_cyclic [OF recursive_bv_cycle])
       (simp add: recursive_bv_def)
  show "plugin_wrapper_rename_all_functions sub_classifier (rename_applier renamed) mutual_bv
     (manager_init 0, unnamed) = None"
    by (rule plugin_wrapper_rename_all_functions_cyclic [OF mutual_bv_cycle])
       (simp add: mutual_bv_def)
qed

text \<open>
  C4. On the snapshot \<open>main \<rightarrow> helper1 \<rightarrow> helper2\<close>, with the three functions listed in any
  order, names that the classifier rejects for all three, and an \<^verbatim>\<open>apply_suggestion\<close> that
  returns a name for each function, the run ends; it marks helper2 done first, then helper1,
  then main, and it calls \<^verbatim>\<open>apply_suggestion\<close> on each of the three, just before marking
  it done, on the names its callees have got by then.
\<close>

theorem chain_scenario:
  assumes "distinct fs" and "set fs = {Main, Helper1, Helper2}"
    and "\<not> is_derived_func_name (nm Main)" and "\<not> is_derived_func_name (nm Helper1)"
    and "\<not> is_derived_func_name (nm Helper2)"
  shows "\<exists>s'. plugin_wrapper_rename_all_functions is_derived_func_name (rename_applier sugg)
                (chain_bv fs) (m, nm) = Some (snd (get_instance m), Inr s') \<and>
              done_order (log s') = [Helper2, Helper1, Main] \<and>
              applied_order (log s') = [Helper2, Helper1, Main] \<and>
              log s' = [Applied Helper2, MarkedDone Helper2, Applied Helper1, MarkedDone Helper1,
                        Applied Main, MarkedDone Main] \<and>
              names s' =
                (let gpt = fst (get_instance m);
                     n1 = nm(Helper2 := sugg gpt Helper2 nm);
                     n2 = n1(Helper1 := sugg gpt Helper1 n1)
                 in n2(Main := sugg gpt Main n2))"
proof -
  obtain gpt m' where g: "get_instance m = (gpt, m')" by (cases "get_instance m")
  from chain_run_names [OF assms(3-5) chain_orders [OF assms(1,2)], of sugg gpt]
  obtain s' where s': "while_loop is_derived_func_name (rename_applier sugg gpt) (chain_bv fs)
        (initial_state (chain_bv fs) nm) = Some (Inr s')"
      "log s' = [Applied Helper2, MarkedDone Helper2, Applied Helper1, MarkedDone Helper1,
                   Applied Main, MarkedDone Main]"
      "names s' = (let n1 = nm(Helper2 := sugg gpt Helper2 nm);
                n2 = n1(Helper1 := sugg gpt Helper1 n1)
            in n2(Main := sugg gpt Main n2))"
    by blast
  have "plugin_wrapper_rename_all_functions is_derived_func_name (rename_applier sugg)
                (chain_bv fs) (m, nm) = Some (snd (get_instance m), Inr s')"
    using s'(1) g by (simp add: plugin_wrapper_rename_all_functions_def)
  moreover have "done_order (log s') = [Helper2, Helper1, Main]"
    "applied_order (log s') = [Helper2, Helper1, Main]"
    by (simp_all add: s'(2))
  ultimately show ?thesis using s'(2,3) g by (simp add: Let_def)
qed

theorem chain_scenario_witness:
  "distinct [Main, Helper1, Helper2] \<and> set [Main, Helper1, Helper2] = {Main, Helper1, Helper2} \<and>
   \<not> sub_classifier (placeholder_names Main) \<and> \<not> sub_classifier (placeholder_names Helper1) \<and>
   \<not> sub_classifier (placeholder_names Helper2) \<and>
   (\<exists>s'. plugin_wrapper_rename_all_functions sub_classifier (rename_applier suggested)
            (chain_bv [Main, Helper1, Helper2]) (manager_init 0, placeholder_names) =
          Some (\<lparr>binja_function_name_gpt = Some 0, constructions = 1\<rparr>, Inr s') \<and>
        done_order (log s') = [Helper2, Helper1, Main] \<and>
        applied_order (log s') = [Helper2, Helper1, Main] \<and>
        names s' Helper2 = ''read_byte'' \<and> names s' Helper1 = ''parse'' \<and> names s' Main = ''run'')"
proof -
  have a: "distinct [Main, Helper1, Helper2]" by simp
  have b: "set [Main, Helper1, Helper2] = {Main, Helper1, Helper2}" by simp
  have c: "\<not> sub_classifier (placeholder_names Main)" "\<not> sub_classifier (placeholder_names Helper1)"
    "\<not> sub_classifier (placeholder_names Helper2)"
    by (simp_all add: sub_classifier_def placeholder_names_def)
  have g: "get_instance (manager_init 0) = (0, \<lparr>binja_function_name_gpt = Some 0, constructions = 1\<rparr>)"
    by (simp add: get_instance_def manager_init_def FunctionNameGPTWrapper_def)
  from chain_scenario [OF a b c, of suggested "manager_init 0"]
  obtain s' where s': "plugin_wrapper_rename_all_functions sub_classifier (rename_applier suggested)
            (chain_bv [Main, Helper1, Helper2]) (manager_init 0, placeholder_names) =
          Some (snd (get_instance (manager_init 0)), Inr s')"
     "done_order (log s') = [Helper2, Helper1, Main]"
     "applied_order (log s') = [Helper2, Helper1, Main]"
     "names s' =
                (let gpt = fst (get_instance (manager_init 0));
                     n1 = placeholder_names(Helper2 := suggested gpt Helper2 placeholder_names);
                     n2 = n1(Helper1 := suggested gpt Helper1 n1)
                 in n2(Main := suggested gpt Main n2))"
    by blast
  have "names s' Helper2 = ''read_byte''" "names s' Helper1 = ''parse''" "names s' Main = ''run''"
    by (simp_all add: s'(4) Let_def suggested_def)
  then show ?thesis using a b c s'(1,2,3) g by auto
qed

text \<open>
  C5. At every moment of every run (after any number of iterations, and in the result of
  the command when it returns), a function \<open>A\<close> that has been marked done was marked done
  after each of its callees \<open>B\<close>, and was marked once: in the list of the functions marked
  done, \<open>B\<close> stands strictly before \<open>A\<close>. Said for one iteration: a function that enters
  the set \<^verbatim>\<open>done\<close> has all its callees in the set already. (A function from which a path
  of calls leads back to itself is never marked done at all.)
\<close>

theorem dependency_order:
  "(\<forall>n xs A ys B.
      done_order (log (last_state
        (iterations is_derived_func_name apply_suggestion bv n (initial_state bv nm)))) = xs @ A # ys \<and>
      B \<in> set (callees bv A) \<longrightarrow> B \<in> set xs \<and> A \<notin> set xs \<and> A \<notin> set ys) \<and>
   (\<forall>m m' r xs A ys B.
      plugin_wrapper_rename_all_functions is_derived_func_name applier bv (m, nm) = Some (m', r) \<and>
      done_order (log (last_state r)) = xs @ A # ys \<and>
      B \<in> set (callees bv A) \<longrightarrow> B \<in> set xs \<and> A \<notin> set xs \<and> A \<notin> set ys) \<and>
   (\<forall>s s' A.
      loop_body is_derived_func_name apply_suggestion bv s = Inr s' \<and>
      A \<in> done_set s' \<and> A \<notin> done_set s \<longrightarrow> set (callees bv A) \<subseteq> done_set s)"
proof (intro conjI allI impI)
  fix n xs A ys B
  assume "done_order (log (last_state
        (iterations is_derived_func_name apply_suggestion bv n (initial_state bv nm)))) = xs @ A # ys \<and>
      B \<in> set (callees bv A)"
  then show "B \<in> set xs" "A \<notin> set xs" "A \<notin> set ys"
    using iterations_dependency_order by fast+
next
  fix m m' r xs A ys B
  assume a: "plugin_wrapper_rename_all_functions is_derived_func_name applier bv (m, nm) = Some (m', r) \<and>
      done_order (log (last_state r)) = xs @ A # ys \<and> B \<in> set (callees bv A)"
  then obtain n where
    "iterations is_derived_func_name (applier (fst (get_instance m))) bv n (initial_state bv nm) = r"
    using plugin_wrapper_rename_all_functions_iterations by fast
  then show "B \<in> set xs" "A \<notin> set xs" "A \<notin> set ys"
    using a iterations_dependency_order by fast+
next
  fix s s' A
  assume a: "loop_body is_derived_func_name apply_suggestion bv s = Inr s' \<and>
      A \<in> done_set s' \<and> A \<notin> done_set s"
  show "set (callees bv A) \<subseteq> done_set s"
    by (cases rule: loop_body_cases [where s = s and cls = is_derived_func_name
          and app = apply_suggestion and bv = bv]) (use a in auto)
qed

theorem dependency_order_witness:
  "done_order (log (last_state
     (iterations sub_classifier (rename_applier suggested 0) (chain_bv [Main, Helper1, Helper2]) 6
        (initial_state (chain_bv [Main, Helper1, Helper2]) placeholder_names)))) =
     [Helper2] @ Helper1 # [Main] \<and>
   Helper2 \<in> set (callees (chain_bv [Main, Helper1, Helper2]) Helper1) \<and>
   Helper2 \<in> set [Helper2] \<and> Helper1 \<notin> set [Helper2] \<and> Helper1 \<notin> set [Main] \<and>
   (\<exists>m' r. plugin_wrapper_rename_all_functions sub_classifier (rename_applier suggested)
       (chain_bv [Main, Helper1, Helper2]) (manager_init 0, placeholder_names) = Some (m', r) \<and>
     done_order (log (last_state r)) = [Helper2, Helper1] @ Main # [] \<and>
     Helper1 \<in> set (callees (chain_bv [Main, Helper1, Helper2]) Main) \<and>
     Helper1 \<in> set [Helper2, Helper1] \<and> Main \<notin> set [Helper2, Helper1]) \<and>
   (\<exists>s'. loop_body sub_classifier (rename_applier suggested 0) (chain_bv [Main, Helper1, Helper2])
           after_helper2 = Inr s' \<and>
         Helper1 \<in> done_set s' \<and> Helper1 \<notin> done_set after_helper2 \<and>
         set (callees (chain_bv [Main, Helper1, Helper2]) Helper1) \<subseteq> done_set after_helper2)"
proof -
  let ?bv = "chain_bv [Main, Helper1, Helper2]"
  note inst = dependency_order [where bv = ?bv and is_derived_func_name = sub_classifier
      and apply_suggestion = "rename_applier suggested 0" and applier = "rename_applier suggested"
      and nm = placeholder_names]
  have a: "done_order (log (last_state
     (iterations sub_classifier (rename_applier suggested 0) ?bv 6
        (initial_state ?bv placeholder_names)))) = [Helper2] @ Helper1 # [Main]"
    by (simp add: chain_six_iterations last_state_def)
  have b: "Helper2 \<in> set (callees ?bv Helper1)"
    by (simp add: chain_bv_def)
  from inst [THEN conjunct1, rule_format, OF conjI, OF a b]
  have first: "Helper2 \<in> set [Helper2] \<and> Helper1 \<notin> set [Helper2] \<and> Helper1 \<notin> set [Main]" .
  let ?r = "Inr \<lparr>todo = [], done_set = {Main, Helper1, Helper2},
              names = placeholder_names(Helper2 := ''read_byte'', Helper1 := ''parse'', Main := ''run''),
              log = [Applied Helper2, MarkedDone Helper2, Applied Helper1, MarkedDone Helper1,
                     Applied Main, MarkedDone Main]\<rparr> :: fn result"
  have c: "done_order (log (last_state ?r)) = [Helper2, Helper1] @ Main # []"
    by (simp add: last_state_def)
  have d: "Helper1 \<in> set (callees ?bv Main)"
    by (simp add: chain_bv_def)
  have cmd: "plugin_wrapper_rename_all_functions sub_classifier (rename_applier suggested) ?bv
       (manager_init 0, placeholder_names) = Some (\<lparr>binja_function_name_gpt = Some 0, constructions = 1\<rparr>, ?r) \<and>
     done_order (log (last_state ?r)) = [Helper2, Helper1] @ Main # [] \<and>
     Helper1 \<in> set (callees ?bv Main)"
    using chain_command_result c d by blast
  from inst [THEN conjunct2, THEN conjunct1, rule_format, OF cmd]
  have second: "Helper1 \<in> set [Helper2, Helper1] \<and> Main \<notin> set [Helper2, Helper1] \<and> Main \<notin> set []" .
  let ?s' = "\<lparr>todo = [Main, Helper1], done_set = {Helper1, Helper2},
        names = placeholder_names(Helper2 := ''read_byte'', Helper1 := ''parse''),
        log = [Applied Helper2, MarkedDone Helper2, Applied Helper1, MarkedDone Helper1]\<rparr>"
  have e: "loop_body sub_classifier (rename_applier suggested 0) ?bv after_helper2 = Inr ?s' \<and>
      Helper1 \<in> done_set ?s' \<and> Helper1 \<notin> done_set after_helper2"
    using after_helper2_step by (simp add: after_helper2_def)
  from inst [THEN conjunct2, THEN conjunct2, rule_format, OF e]
  have third: "set (callees ?bv Helper1) \<subseteq> done_set after_helper2" .
  show ?thesis
    using a b first cmd second e third by blast
qed

text \<open>
  C6, as the source has it. The loop has no handler: an exception of \<^verbatim>\<open>apply_suggestion\<close>
  ends the run. On the snapshot \<open>main \<rightarrow> helper1 \<rightarrow> helper2\<close>, when the call for helper1
  raises, the command ends with that exception; helper1 is not marked done, and main, still
  on the worklist, is neither handed to \<^verbatim>\<open>apply_suggestion\<close> nor marked done.
\<close>

theorem failure_isolation_counterexample:
  "plugin_wrapper_rename_all_functions sub_classifier (failing_applier Helper1 suggested)
     (chain_bv [Main, Helper1, Helper2]) (manager_init 0, placeholder_names) =
   Some (\<lparr>binja_function_name_gpt = Some 0, constructions = 1\<rparr>,
         Inl (SuggestionError,
              \<lparr>todo = [Main], done_set = {Helper2},
               names = placeholder_names(Helper2 := ''read_byte''),
               log = [Applied Helper2, MarkedDone Helper2, Applied Helper1]\<rparr>))"
  by (simp add: plugin_wrapper_rename_all_functions_def get_instance_def manager_init_def
        FunctionNameGPTWrapper_def while_loop.simps loop_body_def initial_state_def chain_bv_def
        failing_applier_def requeue_def mark_done_def sub_classifier_def placeholder_names_def
        suggested_def)

text \<open>
  C6, amended. When \<^verbatim>\<open>apply_suggestion\<close> never raises, the run on a finite call graph
  without cycles ends with every function of the snapshot marked done. A call that returns
  and leaves the names as they are (no suggestion) marks the function done, unrenamed, and
  the loop goes on with the same worklist. A call that raises ends the loop at once with
  that exception: the function is not marked done and the rest of the worklist is left.
\<close>

theorem failure_isolation_amended:
  "(finite (callee_rel bv) \<and> acyclic (callee_rel bv) \<and>
      (\<forall>f nm' e. applier (fst (get_instance m)) f nm' \<noteq> Inl e) \<longrightarrow>
      (\<exists>s'. plugin_wrapper_rename_all_functions is_derived_func_name applier bv (m, nm) =
               Some (snd (get_instance m), Inr s') \<and>
            todo s' = [] \<and> set (bv_functions bv) \<subseteq> done_set s')) \<and>
   (\<forall>s. todo s \<noteq> [] \<and> last (todo s) \<notin> done_set s \<and>
        set (callees bv (last (todo s))) \<subseteq> done_set s \<and>
        \<not> is_derived_func_name (names s (last (todo s))) \<and>
        apply_suggestion (last (todo s)) (names s) = Inr (names s) \<longrightarrow>
        (\<exists>s'. loop_body is_derived_func_name apply_suggestion bv s = Inr s' \<and>
              names s' = names s \<and> done_set s' = insert (last (todo s)) (done_set s) \<and>
              todo s' = todo s)) \<and>
   (\<forall>s e. todo s \<noteq> [] \<and> last (todo s) \<notin> done_set s \<and>
        set (callees bv (last (todo s))) \<subseteq> done_set s \<and>
        \<not> is_derived_func_name (names s (last (todo s))) \<and>
        apply_suggestion (last (todo s)) (names s) = Inl e \<longrightarrow>
        while_loop is_derived_func_name apply_suggestion bv s =
          Some (Inl (e, s\<lparr>todo := butlast (todo s), log := log s @ [Applied (last (todo s))]\<rparr>)))"
proof (intro conjI allI impI)
  assume a: "finite (callee_rel bv) \<and> acyclic (callee_rel bv) \<and>
      (\<forall>f nm' e. applier (fst (get_instance m)) f nm' \<noteq> Inl e)"
  obtain gpt m' where g: "get_instance m = (gpt, m')" by (cases "get_instance m")
  have wf: "wf (callee_rel bv)" using a by (simp add: finite_acyclic_callee_rel_wf)
  from while_loop_terminates [OF wf, of is_derived_func_name "applier gpt" "initial_state bv nm"]
  obtain r where r: "while_loop is_derived_func_name (applier gpt) bv (initial_state bv nm) = Some r"
    "\<forall>s'. r = Inr s' \<longrightarrow> todo s' = [] \<and> set (bv_functions bv) \<subseteq> done_set s'"
    by auto
  have "\<exists>s'. r = Inr s'"
  proof (cases r)
    case (Inl x)
    obtain e b where "x = (e, b)" by (cases x)
    then have "\<exists>f nm'. applier gpt f nm' = Inl e"
      using r(1) Inl while_loop_raise_origin by fast
    then show ?thesis using a g by simp
  next
    case (Inr s')
    then show ?thesis by simp
  qed
  then obtain s' where "r = Inr s'" by blast
  then show "\<exists>s'. plugin_wrapper_rename_all_functions is_derived_func_name applier bv (m, nm) =
               Some (snd (get_instance m), Inr s') \<and>
            todo s' = [] \<and> set (bv_functions bv) \<subseteq> done_set s'"
    using r g by (simp add: plugin_wrapper_rename_all_functions_def)
next
  fix s :: "'a state"
  assume a: "todo s \<noteq> [] \<and> last (todo s) \<notin> done_set s \<and>
        set (callees bv (last (todo s))) \<subseteq> done_set s \<and>
        \<not> is_derived_func_name (names s (last (todo s))) \<and>
        apply_suggestion (last (todo s)) (names s) = Inr (names s)"
  then have "filter (\<lambda>callee. callee \<noteq> last (todo s) \<and> callee \<notin> done_set s)
               (callees bv (last (todo s))) = []"
    by (auto simp add: filter_empty_conv)
  then show "\<exists>s'. loop_body is_derived_func_name apply_suggestion bv s = Inr s' \<and>
              names s' = names s \<and> done_set s' = insert (last (todo s)) (done_set s) \<and>
              todo s' = todo s"
    using a by (simp add: loop_body_ready_applied)
next
  fix s :: "'a state" and e
  assume a: "todo s \<noteq> [] \<and> last (todo s) \<notin> done_set s \<and>
        set (callees bv (last (todo s))) \<subseteq> done_set s \<and>
        \<not> is_derived_func_name (names s (last (todo s))) \<and>
        apply_suggestion (last (todo s)) (names s) = Inl e"
  then have "loop_body is_derived_func_name apply_suggestion bv s =
      Inl (e, s\<lparr>todo := butlast (todo s), log := log s @ [Applied (last (todo s))]\<rparr>)"
    by (simp add: loop_body_ready_raise)
  then show "while_loop is_derived_func_name apply_suggestion bv s =
          Some (Inl (e, s\<lparr>todo := butlast (todo s), log := log s @ [Applied (last (todo s))]\<rparr>))"
    using a while_loop_raise by blast
qed

theorem failure_isolation_amended_witness:
  "finite (callee_rel (chain_bv [Main, Helper1, Helper2])) \<and>
   acyclic (callee_rel (chain_bv [Main, Helper1, Helper2])) \<and>
   (\<exists>s'. plugin_wrapper_rename_all_functions sub_classifier (no_suggestion_applier Helper1 suggested)
            (chain_bv [Main, Helper1, Helper2]) (manager_init 0, placeholder_names) =
          Some (snd (get_instance (manager_init 0)), Inr s') \<and>
        todo s' = [] \<and> {Main, Helper1, Helper2} \<subseteq> done_set s') \<and>
   no_suggestion_applier Helper1 suggested 0 Helper1 (names after_helper2) = Inr (names after_helper2) \<and>
   (\<exists>s'. loop_body sub_classifier (no_suggestion_applier Helper1 suggested 0)
            (chain_bv [Main, Helper1, Helper2]) after_helper2 = Inr s' \<and>
         names s' = names after_helper2 \<and> done_set s' = {Helper1, Helper2} \<and>
         todo s' = [Main, Helper1]) \<and>
   failing_applier Helper1 suggested 0 Helper1 (names after_helper2) = Inl SuggestionError \<and>
   while_loop sub_classifier (failing_applier Helper1 suggested 0)
       (chain_bv [Main, Helper1, Helper2]) after_helper2 =
     Some (Inl (SuggestionError,
                \<lparr>todo = [Main], done_set = {Helper2},
                 names = placeholder_names(Helper2 := ''read_byte''),
                 log = [Applied Helper2, MarkedDone Helper2, Applied Helper1]\<rparr>))"
proof -
  let ?bv = "chain_bv [Main, Helper1, Helper2]"
  have nr: "\<forall>f nm' e. no_suggestion_applier Helper1 suggested (fst (get_instance (manager_init 0))) f nm'
              \<noteq> Inl e"
    by (simp add: no_suggestion_applier_def)
  have hyp: "finite (callee_rel ?bv) \<and> acyclic (callee_rel ?bv) \<and>
      (\<forall>f nm' e. no_suggestion_applier Helper1 suggested (fst (get_instance (manager_init 0))) f nm'
              \<noteq> Inl e)"
    using chain_bv_finite chain_bv_acyclic nr by blast
  from failure_isolation_amended [where bv = ?bv and m = "manager_init 0"
      and applier = "no_suggestion_applier Helper1 suggested"
      and is_derived_func_name = sub_classifier and nm = placeholder_names,
      THEN conjunct1, rule_format, OF hyp]
  obtain s' where "plugin_wrapper_rename_all_functions sub_classifier
            (no_suggestion_applier Helper1 suggested) ?bv (manager_init 0, placeholder_names) =
          Some (snd (get_instance (manager_init 0)), Inr s')"
     "todo s' = []" "set (bv_functions ?bv) \<subseteq> done_set s'"
    by blast
  then have first: "\<exists>s'. plugin_wrapper_rename_all_functions sub_classifier
            (no_suggestion_applier Helper1 suggested) ?bv (manager_init 0, placeholder_names) =
          Some (snd (get_instance (manager_init 0)), Inr s') \<and>
        todo s' = [] \<and> {Main, Helper1, Helper2} \<subseteq> done_set s'"
    by (auto simp add: chain_bv_def)
  have ns: "no_suggestion_applier Helper1 suggested 0 (last (todo after_helper2)) (names after_helper2)
      = Inr (names after_helper2)"
    by (simp add: no_suggestion_applier_def after_helper2_ready)
  have h2: "todo after_helper2 \<noteq> [] \<and> last (todo after_helper2) \<notin> done_set after_helper2 \<and>
        set (callees ?bv (last (todo after_helper2))) \<subseteq> done_set after_helper2 \<and>
        \<not> sub_classifier (names after_helper2 (last (todo after_helper2))) \<and>
        no_suggestion_applier Helper1 suggested 0 (last (todo after_helper2)) (names after_helper2)
          = Inr (names after_helper2)"
    using after_helper2_ready ns by blast
  from failure_isolation_amended [where bv = ?bv and is_derived_func_name = sub_classifier
      and apply_suggestion = "no_suggestion_applier Helper1 suggested 0",
      THEN conjunct2, THEN conjunct1, rule_format, OF h2]
  have second: "\<exists>s'. loop_body sub_classifier (no_suggestion_applier Helper1 suggested 0)
            ?bv after_helper2 = Inr s' \<and>
         names s' = names after_helper2 \<and> done_set s' = {Helper1, Helper2} \<and>
         todo s' = [Main, Helper1]"
    by (simp add: after_helper2_ready) (simp add: after_helper2_def)
  have fl: "failing_applier Helper1 suggested 0 (last (todo after_helper2)) (names after_helper2)
      = Inl SuggestionError"
    by (simp add: failing_applier_def after_helper2_ready)
  have h3: "todo after_helper2 \<noteq> [] \<and> last (todo after_helper2) \<notin> done_set after_helper2 \<and>
        set (callees ?bv (last (todo after_helper2))) \<subseteq> done_set after_helper2 \<and>
        \<not> sub_classifier (names after_helper2 (last (todo after_helper2))) \<and>
        failing_applier Helper1 suggested 0 (last (todo after_helper2)) (names after_helper2)
          = Inl SuggestionError"
    using after_helper2_ready fl by blast
  from failure_isolation_amended [where bv = ?bv and is_derived_func_name = sub_classifier
      and apply_suggestion = "failing_applier Helper1 suggested 0",
      THEN conjunct2, THEN conjunct2, rule_format, OF h3]
  have third: "while_loop sub_classifier (failing_applier Helper1 suggested 0) ?bv after_helper2 =
     Some (Inl (SuggestionError,
                \<lparr>todo = [Main], done_set = {Helper2},
                 names = placeholder_names(Helper2 := ''read_byte''),
                 log = [Applied Helper2, MarkedDone Helper2, Applied Helper1]\<rparr>))"
    by (simp add: after_helper2_def)
  show ?thesis
    using chain_bv_finite chain_bv_acyclic first ns second fl third
    by (simp add: after_helper2_ready)
qed



text \<open>
  C8. In a sequence of calls of \<^verbatim>\<open>get_instance\<close>, one after the other, on a manager that holds
  no wrapper yet, the first call builds the wrapper and every later call returns that same
  object without building another: \<open>n\<close> calls return \<open>n\<close> times the object built by the
  first, the constructor has run once, and on a manager that already holds a wrapper nothing
  changes at all. In every case the constructor runs at most once and all results are the
  object the manager holds in the end.
\<close>

theorem get_instance_singleton:
  assumes "get_instance_seq n self = (ws, self')"
  shows "length ws = n \<and>
         (\<forall>w \<in> set ws. binja_function_name_gpt self' = Some w) \<and>
         constructions self' \<le> Suc (constructions self) \<and>
         (binja_function_name_gpt self = None \<and> 0 < n \<longrightarrow>
            constructions self' = Suc (constructions self) \<and>
            fst (get_instance self) = constructions self \<and>
            ws = replicate n (fst (get_instance self))) \<and>
         (binja_function_name_gpt self \<noteq> None \<longrightarrow> self' = self)"
proof (cases "binja_function_name_gpt self")
  case None
  show ?thesis
  proof (cases n)
    case 0
    then show ?thesis using assms by simp
  next
    case (Suc k)
    then show ?thesis using assms None get_instance_seq_fresh [OF None, of k]
      by (auto simp add: get_instance_fresh)
  qed
next
  case (Some w)
  then show ?thesis using assms get_instance_seq_initialised [OF Some, of n] by auto
qed

theorem get_instance_singleton_witness:
  "get_instance_seq 3 (manager_init 0) =
     ([0, 0, 0], \<lparr>binja_function_name_gpt = Some 0, constructions = 1\<rparr>) \<and>
   binja_function_name_gpt (manager_init 0) = None \<and>
   constructions \<lparr>binja_function_name_gpt = Some 0, constructions = 1\<rparr> =
     Suc (constructions (manager_init 0)) \<and>
   get_instance_seq 2 \<lparr>binja_function_name_gpt = Some 0, constructions = 1\<rparr> =
     ([0, 0], \<lparr>binja_function_name_gpt = Some 0, constructions = 1\<rparr>)"
proof -
  have run: "get_instance_seq 3 (manager_init 0) =
               ([0, 0, 0], \<lparr>binja_function_name_gpt = Some 0, constructions = 1\<rparr>)"
    by (simp add: numeral_3_eq_3 manager_init_def get_instance_def FunctionNameGPTWrapper_def)
  have again: "get_instance_seq 2 \<lparr>binja_function_name_gpt = Some 0, constructions = 1\<rparr> =
                 ([0, 0], \<lparr>binja_function_name_gpt = Some 0, constructions = 1\<rparr>)"
    by (simp add: numeral_2_eq_2 get_instance_def)
  show ?thesis
    using get_instance_singleton [OF run] get_instance_singleton [OF again] run again
    by (simp add: manager_init_def)
qed

text \<open>
  C9, as the source has it. On the finite call graph without cycles
  \<open>main \<rightarrow> helper1 \<rightarrow> helper2\<close> the command ends, by the exception that the call of
  \<^verbatim>\<open>apply_suggestion\<close> for helper2 raises, and main, a function of the snapshot, is not in
  the set \<^verbatim>\<open>done\<close>.
\<close>

theorem acyclic_terminates_counterexample:
  "finite (callee_rel (chain_bv [Main, Helper1, Helper2])) \<and>
   acyclic (callee_rel (chain_bv [Main, Helper1, Helper2])) \<and>
   plugin_wrapper_rename_all_functions sub_classifier (failing_applier Helper2 suggested)
     (chain_bv [Main, Helper1, Helper2]) (manager_init 0, placeholder_names) =
   Some (\<lparr>binja_function_name_gpt = Some 0, constructions = 1\<rparr>,
         Inl (SuggestionError,
              \<lparr>todo = [Main, Helper1], done_set = {}, names = placeholder_names,
               log = [Applied Helper2]\<rparr>)) \<and>
   Main \<in> set (bv_functions (chain_bv [Main, Helper1, Helper2])) \<and>
   Main \<notin> done_set
     \<lparr>todo = [Main, Helper1], done_set = {}, names = placeholder_names, log = [Applied Helper2]\<rparr>"
proof -
  have "plugin_wrapper_rename_all_functions sub_classifier (failing_applier Helper2 suggested)
     (chain_bv [Main, Helper1, Helper2]) (manager_init 0, placeholder_names) =
   Some (\<lparr>binja_function_name_gpt = Some 0, constructions = 1\<rparr>,
         Inl (SuggestionError,
              \<lparr>todo = [Main, Helper1], done_set = {}, names = placeholder_names,
               log = [Applied Helper2]\<rparr>))"
    by (simp add: plugin_wrapper_rename_all_functions_def get_instance_def manager_init_def
        FunctionNameGPTWrapper_def while_loop.simps loop_body_def initial_state_def chain_bv_def
        failing_applier_def requeue_def mark_done_def sub_classifier_def placeholder_names_def
        suggested_def)
  then show ?thesis using chain_bv_finite chain_bv_acyclic by (simp add: chain_bv_def)
qed

text \<open>
  C9, amended. On a finite call graph without cycles the whole-program command returns.
  When no call of \<^verbatim>\<open>apply_suggestion\<close> raises, the loop ends with the worklist empty and
  every function of the snapshot in the set \<^verbatim>\<open>done\<close>. The only other way to return is an
  exception that some call of \<^verbatim>\<open>apply_suggestion\<close> raised, and then functions of the
  snapshot may be left out of the set.
\<close>

theorem acyclic_terminates:
  assumes "finite (callee_rel bv)" and "acyclic (callee_rel bv)"
  shows "\<exists>r. plugin_wrapper_rename_all_functions is_derived_func_name apply_suggestion bv (m, nm) =
               Some (snd (get_instance m), r) \<and>
             (\<forall>s'. r = Inr s' \<longrightarrow> todo s' = [] \<and> set (bv_functions bv) \<subseteq> done_set s') \<and>
             (\<forall>e a. r = Inl (e, a) \<longrightarrow>
                (\<exists>f nm'. apply_suggestion (fst (get_instance m)) f nm' = Inl e)) \<and>
             ((\<forall>f nm' e. apply_suggestion (fst (get_instance m)) f nm' \<noteq> Inl e) \<longrightarrow>
                (\<exists>s'. r = Inr s' \<and> todo s' = [] \<and> set (bv_functions bv) \<subseteq> done_set s'))"
proof -
  obtain gpt m' where g: "get_instance m = (gpt, m')" by (cases "get_instance m")
  have wf: "wf (callee_rel bv)" using assms by (rule finite_acyclic_callee_rel_wf)
  from while_loop_terminates [OF wf, of is_derived_func_name "apply_suggestion gpt" "initial_state bv nm"]
  obtain r where r: "while_loop is_derived_func_name (apply_suggestion gpt) bv (initial_state bv nm) = Some r"
    "\<forall>s'. r = Inr s' \<longrightarrow> todo s' = [] \<and> set (bv_functions bv) \<subseteq> done_set s'"
    by auto
  have origin: "\<forall>e a. r = Inl (e, a) \<longrightarrow> (\<exists>f nm'. apply_suggestion gpt f nm' = Inl e)"
    using r(1) while_loop_raise_origin by fast
  have normal: "\<exists>s'. r = Inr s' \<and> todo s' = [] \<and> set (bv_functions bv) \<subseteq> done_set s'"
    if never: "\<forall>f nm' e. apply_suggestion gpt f nm' \<noteq> Inl e"
  proof (cases r)
    case (Inl x)
    obtain e a where "x = (e, a)" by (cases x)
    then have "\<exists>f nm'. apply_suggestion gpt f nm' = Inl e" using origin Inl by simp
    then show ?thesis using never by simp
  next
    case (Inr s')
    then show ?thesis using r(2) by simp
  qed
  have cmd: "plugin_wrapper_rename_all_functions is_derived_func_name apply_suggestion bv (m, nm) =
               Some (snd (get_instance m), r)"
    using r(1) g by (simp add: plugin_wrapper_rename_all_functions_def)
  have "(\<forall>f nm' e. apply_suggestion (fst (get_instance m)) f nm' \<noteq> Inl e) \<longrightarrow>
                (\<exists>s'. r = Inr s' \<and> todo s' = [] \<and> set (bv_functions bv) \<subseteq> done_set s')"
    using normal g by simp
  moreover have "\<forall>e a. r = Inl (e, a) \<longrightarrow>
                (\<exists>f nm'. apply_suggestion (fst (get_instance m)) f nm' = Inl e)"
    using origin g by simp
  ultimately show ?thesis using cmd r(2) by (intro exI [where x = r] conjI)
qed

theorem acyclic_terminates_witness:
  "finite (callee_rel (chain_bv [Main, Helper1, Helper2])) \<and>
   acyclic (callee_rel (chain_bv [Main, Helper1, Helper2])) \<and>
   (\<exists>s'. plugin_wrapper_rename_all_functions sub_classifier (rename_applier suggested)
            (chain_bv [Main, Helper1, Helper2]) (manager_init 0, placeholder_names) =
          Some (snd (get_instance (manager_init 0)), Inr s') \<and>
        todo s' = [] \<and> {Main, Helper1, Helper2} \<subseteq> done_set s') \<and>
   (\<exists>e a. plugin_wrapper_rename_all_functions sub_classifier (failing_applier Main suggested)
            (chain_bv [Main, Helper1, Helper2]) (manager_init 0, placeholder_names) =
          Some (snd (get_instance (manager_init 0)), Inl (e, a)) \<and>
        (\<exists>f nm'. failing_applier Main suggested (fst (get_instance (manager_init 0))) f nm' = Inl e))"
proof -
  let ?bv = "chain_bv [Main, Helper1, Helper2]"
  note fin = chain_bv_finite [of "[Main, Helper1, Helper2]"]
  note acy = chain_bv_acyclic [of "[Main, Helper1, Helper2]"]
  from acyclic_terminates [OF fin acy,
      where is_derived_func_name = sub_classifier and apply_suggestion = "rename_applier suggested"
        and m = "manager_init 0" and nm = placeholder_names]
  obtain r where r: "plugin_wrapper_rename_all_functions sub_classifier (rename_applier suggested)
            ?bv (manager_init 0, placeholder_names) = Some (snd (get_instance (manager_init 0)), r)"
    "(\<forall>f nm' e. rename_applier suggested (fst (get_instance (manager_init 0))) f nm' \<noteq> Inl e) \<longrightarrow>
        (\<exists>s'. r = Inr s' \<and> todo s' = [] \<and> set (bv_functions ?bv) \<subseteq> done_set s')"
    by (elim exE conjE)
  have "\<forall>f nm' e. rename_applier suggested (fst (get_instance (manager_init 0))) f nm' \<noteq> Inl e"
    by (simp add: rename_applier_def)
  then obtain s' where s': "r = Inr s'" "todo s' = []" "set (bv_functions ?bv) \<subseteq> done_set s'"
    using r(2) by (elim impE exE conjE)
  have "{Main, Helper1, Helper2} \<subseteq> done_set s'" using s'(3) by (simp add: chain_bv_def)
  then have first: "\<exists>s'. plugin_wrapper_rename_all_functions sub_classifier (rename_applier suggested)
            ?bv (manager_init 0, placeholder_names) =
          Some (snd (get_instance (manager_init 0)), Inr s') \<and>
        todo s' = [] \<and> {Main, Helper1, Helper2} \<subseteq> done_set s'"
    using r(1) s'(1,2) by (intro exI [where x = s'] conjI) simp_all
  let ?a = "\<lparr>todo = [], done_set = {Helper1, Helper2},
             names = placeholder_names(Helper2 := ''read_byte'', Helper1 := ''parse''),
             log = [Applied Helper2, MarkedDone Helper2, Applied Helper1, MarkedDone Helper1,
                    Applied Main]\<rparr>"
  have raised: "plugin_wrapper_rename_all_functions sub_classifier (failing_applier Main suggested)
            ?bv (manager_init 0, placeholder_names) =
          Some (snd (get_instance (manager_init 0)), Inl (SuggestionError, ?a))"
    by (simp add: plugin_wrapper_rename_all_functions_def get_instance_def manager_init_def
        FunctionNameGPTWrapper_def while_loop.simps loop_body_def initial_state_def chain_bv_def
        failing_applier_def requeue_def mark_done_def sub_classifier_def placeholder_names_def
        suggested_def)
  from acyclic_terminates [OF fin acy,
      where is_derived_func_name = sub_classifier and apply_suggestion = "failing_applier Main suggested"
        and m = "manager_init 0" and nm = placeholder_names]
  obtain r2 where r2: "plugin_wrapper_rename_all_functions sub_classifier (failing_applier Main suggested)
            ?bv (manager_init 0, placeholder_names) = Some (snd (get_instance (manager_init 0)), r2)"
    "\<forall>e a. r2 = Inl (e, a) \<longrightarrow>
        (\<exists>f nm'. failing_applier Main suggested (fst (get_instance (manager_init 0))) f nm' = Inl e)"
    by (elim exE conjE)
  have "r2 = Inl (SuggestionError, ?a)" using r2(1) raised by simp
  then have "\<exists>f nm'. failing_applier Main suggested (fst (get_instance (manager_init 0))) f nm'
      = Inl SuggestionError"
    using r2(2) by blast
  then have second: "\<exists>e a. plugin_wrapper_rename_all_functions sub_classifier
            (failing_applier Main suggested) ?bv (manager_init 0, placeholder_names) =
          Some (snd (get_instance (manager_init 0)), Inl (e, a)) \<and>
        (\<exists>f nm'. failing_applier Main suggested (fst (get_instance (manager_init 0))) f nm' = Inl e)"
    using raised by (intro exI [where x = SuggestionError] exI [where x = ?a] conjI)
  show ?thesis by (intro conjI fin acy first second)
qed

text \<open>
  C10, on the source. \<^verbatim>\<open>get_instance\<close> takes no lock. When two tasks both test the field
  before either has assigned it, both find it empty and both call the constructor: two
  wrappers are built, the manager keeps the one assigned last, and, when the first task
  returns before the second assigns, the two tasks hold different wrappers.
\<close>

theorem concurrent_double_construction:
  "interleave [False, True, False, True, False, True, False, True]
     (Check, Check, manager_init 0) =
     (Finished (Some 1), Finished (Some 1), \<lparr>binja_function_name_gpt = Some 1, constructions = 2\<rparr>) \<and>
   interleave [False, True, False, False, False, True, True, True]
     (Check, Check, manager_init 0) =
     (Finished (Some 0), Finished (Some 1), \<lparr>binja_function_name_gpt = Some 1, constructions = 2\<rparr>)"
  by (simp add: manager_init_def FunctionNameGPTWrapper_def)

end
